theory Spec2Isabelle
  imports Main "HOL-Library.Sublist" "HOL-Library.Multiset"
begin

section \<open>Data model of main.go\<close>

text \<open>
  A Go \<^verbatim>\<open>time.Time\<close> is an instant; it is modelled by the number of nanoseconds since
  0001-01-01T00:00:00Z, the instant of the zero value \<^verbatim>\<open>time.Time{}\<close>.  A
  \<^verbatim>\<open>time.Duration\<close> is a signed 64-bit count of nanoseconds.  Go strings are byte
  strings, as \<^typ>\<open>string\<close> is.
\<close>

type_synonym time = int

definition IsZero :: "time \<Rightarrow> bool" where
  "IsZero t = (t = 0)"

definition Before :: "time \<Rightarrow> time \<Rightarrow> bool" where
  "Before t u = (t < u)"

definition After :: "time \<Rightarrow> time \<Rightarrow> bool" where
  "After t u = (t > u)"

record AppSettings =
  DaysBack :: int
  OpenAIModel :: string
  MaxPages :: int
  PerPage :: int
  UseCommitCheck :: bool
  IncludeRepoSearch :: bool
  QueriesFile :: string

record SearchQuery =
  sqName :: string
  sqType :: string
  sqQuery :: string
  sqEnabled :: bool

record SearchGroup =
  sgName :: string
  sgEnabled :: bool
  Searches :: "SearchQuery list"

record QueriesSpec =
  Groups :: "SearchGroup list"

record CodeHit =
  Group :: string
  QueryName :: string
  Repository :: string
  RepoURL :: string
  FilePath :: string
  FileURL :: string
  Language :: string
  RepoPushed :: time
  CommitDate :: time

record RepoHit =
  rhGroup :: string
  rhQueryName :: string
  FullName :: string
  HTMLURL :: string
  Description :: string
  PushedAt :: time
  CreatedAt :: time

record Findings =
  RunID :: string
  SinceISO :: string
  fDaysBack :: int
  Generated :: string
  CodeHits :: "CodeHit list"
  RepoHits :: "RepoHit list"
  Notes :: "string list"

text \<open>The zero value \<^verbatim>\<open>Findings{}\<close> that every error return of runSearches carries.\<close>

definition zeroFindings :: Findings where
  "zeroFindings = \<lparr>RunID = [], SinceISO = [], fDaysBack = 0, Generated = [],
     CodeHits = [], RepoHits = [], Notes = []\<rparr>"

section \<open>Aggregator: dedupeCode, dedupeRepo and the two sorts\<close>

text \<open>
  dedupeCode and dedupeRepo walk the slice with a \<^verbatim>\<open>map[string]bool\<close> of the keys seen so
  far; the map is only asked for membership, so it is the set of its true keys.
\<close>

definition codeKey :: "CodeHit \<Rightarrow> string" where
  "codeKey h = Repository h @ ''|'' @ FilePath h @ ''|'' @ FileURL h"

fun dedupeCodeFrom :: "string set \<Rightarrow> CodeHit list \<Rightarrow> CodeHit list" where
  "dedupeCodeFrom seen [] = []"
| "dedupeCodeFrom seen (h # hs) =
     (if codeKey h \<notin> seen then h # dedupeCodeFrom (insert (codeKey h) seen) hs
      else dedupeCodeFrom seen hs)"

definition dedupeCode :: "CodeHit list \<Rightarrow> CodeHit list" where
  "dedupeCode hs = dedupeCodeFrom {} hs"

fun dedupeRepoFrom :: "string set \<Rightarrow> RepoHit list \<Rightarrow> RepoHit list" where
  "dedupeRepoFrom seen [] = []"
| "dedupeRepoFrom seen (h # hs) =
     (if FullName h \<notin> seen then h # dedupeRepoFrom (insert (FullName h) seen) hs
      else dedupeRepoFrom seen hs)"

definition dedupeRepo :: "RepoHit list \<Rightarrow> RepoHit list" where
  "dedupeRepo hs = dedupeRepoFrom {} hs"

text \<open>
  The comparison functions handed to \<^verbatim>\<open>sort.Slice\<close> in runSearches.
\<close>

definition codeLess :: "CodeHit \<Rightarrow> CodeHit \<Rightarrow> bool" where
  "codeLess a b =
     (let ai = CommitDate a; aj = CommitDate b in
      if IsZero ai \<and> IsZero aj then False
      else if IsZero ai then False
      else if IsZero aj then True
      else After ai aj)"

definition repoLess :: "RepoHit \<Rightarrow> RepoHit \<Rightarrow> bool" where
  "repoLess a b = After (PushedAt a) (PushedAt b)"

text \<open>
  \<^verbatim>\<open>sort.Slice\<close> belongs to the Go library: it permutes the slice so that no element is
  \<^verbatim>\<open>less\<close> than one before it, and does not promise stability.  It is modelled by
  insertion sort, the procedure the library itself runs on slices of at most twelve
  elements: every element moves left while it is less than its left neighbour.  On a
  longer slice the library sorts by another procedure, and elements of which neither is
  less than the other may then stand in another order than here; that the result is a
  permutation in which no element is less than one before it is the same.
\<close>

fun insertLeft :: "('a \<Rightarrow> 'a \<Rightarrow> bool) \<Rightarrow> 'a list \<Rightarrow> 'a \<Rightarrow> 'a list" where
  "insertLeft stop [] x = [x]"
| "insertLeft stop (y # ys) x =
     (if stop x y then x # y # ys else y # insertLeft stop ys x)"

text \<open>
  \<open>moveLeft lt pre x\<close>: the sorted prefix \<open>pre\<close> is walked from its right end, and
  \<open>x\<close> stops at the first left neighbour it is not less than.
\<close>

definition moveLeft :: "('a \<Rightarrow> 'a \<Rightarrow> bool) \<Rightarrow> 'a list \<Rightarrow> 'a \<Rightarrow> 'a list" where
  "moveLeft lt pre x = rev (insertLeft (\<lambda>a b. \<not> lt a b) (rev pre) x)"

definition sortSlice :: "('a \<Rightarrow> 'a \<Rightarrow> bool) \<Rightarrow> 'a list \<Rightarrow> 'a list" where
  "sortSlice lt xs = foldl (moveLeft lt) [] xs"

section \<open>Strings: the library functions main.go calls\<close>

text \<open>
  A Go string is a sequence of bytes, and so is a \<^typ>\<open>string\<close> here.  White space is
  what \<^verbatim>\<open>unicode.IsSpace\<close> accepts: tab, line feed, vertical tab, form feed, carriage
  return, space, U+0085, U+00A0, U+1680, U+2000 to U+200A, U+2028, U+2029, U+202F,
  U+205F and U+3000, each given by its UTF-8 encoding.  The decoder of package utf8
  accepts only the shortest encoding of a rune, takes an invalid byte as a rune of
  width one that is not white space, and no rune reaches over a byte that is not a
  continuation byte.  So a white-space rune stands at a position exactly when one of
  these encodings is a prefix of the rest of the string (\<open>spaceWidth\<close>), and a string
  ends with a white-space rune exactly when one of them is a suffix (\<open>endWidth\<close>).
\<close>

definition spaceRunes :: "string list" where
  "spaceRunes =
     [[CHR 0x09], [CHR 0x0A], [CHR 0x0B], [CHR 0x0C], [CHR 0x0D], [CHR 0x20],
      [CHR 0xC2, CHR 0x85], [CHR 0xC2, CHR 0xA0],
      [CHR 0xE1, CHR 0x9A, CHR 0x80],
      [CHR 0xE2, CHR 0x80, CHR 0x80], [CHR 0xE2, CHR 0x80, CHR 0x81],
      [CHR 0xE2, CHR 0x80, CHR 0x82], [CHR 0xE2, CHR 0x80, CHR 0x83],
      [CHR 0xE2, CHR 0x80, CHR 0x84], [CHR 0xE2, CHR 0x80, CHR 0x85],
      [CHR 0xE2, CHR 0x80, CHR 0x86], [CHR 0xE2, CHR 0x80, CHR 0x87],
      [CHR 0xE2, CHR 0x80, CHR 0x88], [CHR 0xE2, CHR 0x80, CHR 0x89],
      [CHR 0xE2, CHR 0x80, CHR 0x8A],
      [CHR 0xE2, CHR 0x80, CHR 0xA8], [CHR 0xE2, CHR 0x80, CHR 0xA9],
      [CHR 0xE2, CHR 0x80, CHR 0xAF],
      [CHR 0xE2, CHR 0x81, CHR 0x9F],
      [CHR 0xE3, CHR 0x80, CHR 0x80]]"

definition spaceWidth :: "string \<Rightarrow> nat" where
  "spaceWidth s = (case find (\<lambda>w. prefix w s) spaceRunes of None \<Rightarrow> 0 | Some w \<Rightarrow> length w)"

definition endWidth :: "string \<Rightarrow> nat" where
  "endWidth s = (case find (\<lambda>w. suffix w s) spaceRunes of None \<Rightarrow> 0 | Some w \<Rightarrow> length w)"

text \<open>Letters and digits are the ASCII ones.\<close>

definition isDigit :: "char \<Rightarrow> bool" where
  "isDigit c = (48 \<le> (of_char c :: nat) \<and> (of_char c :: nat) \<le> 57)"

definition isUpper :: "char \<Rightarrow> bool" where
  "isUpper c = (65 \<le> (of_char c :: nat) \<and> (of_char c :: nat) \<le> 90)"

definition isLower :: "char \<Rightarrow> bool" where
  "isLower c = (97 \<le> (of_char c :: nat) \<and> (of_char c :: nat) \<le> 122)"

definition isWord :: "char \<Rightarrow> bool" where
  "isWord c = (isDigit c \<or> isUpper c \<or> isLower c \<or> c = CHR ''_'')"

definition lowerChar :: "char \<Rightarrow> char" where
  "lowerChar c = (if isUpper c then char_of ((of_char c :: nat) + 32) else c)"

text \<open>
  \<^verbatim>\<open>strings.ToLower\<close> maps the ASCII capitals; main.go compares its result with
  \<^verbatim>\<open>"search"\<close> only, and no rune outside ASCII has one of these six letters as its
  lower case.
\<close>

definition ToLower :: "string \<Rightarrow> string" where
  "ToLower s = map lowerChar s"

text \<open>
  \<^verbatim>\<open>strings.TrimSpace\<close>: the white-space runes are cut off from the left, then from
  the right of what remains.
\<close>

fun TrimLeftSpace :: "string \<Rightarrow> string" where
  "TrimLeftSpace [] = []"
| "TrimLeftSpace (c # cs) =
     (if spaceWidth (c # cs) = 0 then c # cs
      else TrimLeftSpace (drop (spaceWidth (c # cs) - 1) cs))"

lemma endWidth_nonempty: "0 < endWidth s \<Longrightarrow> s \<noteq> []"
  by (auto simp: endWidth_def spaceRunes_def)

function TrimRightSpace :: "string \<Rightarrow> string" where
  "TrimRightSpace s =
     (if endWidth s = 0 then s else TrimRightSpace (take (length s - endWidth s) s))"
  by pat_completeness auto
termination
proof (relation "measure length")
  show "wf (measure length)"
    by simp
next
  fix s :: string
  assume "endWidth s \<noteq> 0"
  then have "0 < endWidth s" and "s \<noteq> []"
    using endWidth_nonempty [of s] by auto
  then show "(take (length s - endWidth s) s, s) \<in> measure length"
    by simp
qed

declare TrimRightSpace.simps [simp del]

definition TrimSpace :: "string \<Rightarrow> string" where
  "TrimSpace s = TrimRightSpace (TrimLeftSpace s)"

text \<open>
  \<^verbatim>\<open>strings.Fields\<close>: the string is read from the left; a white-space rune ends the
  field that is open, and every other byte goes to the open field.
\<close>

fun fieldsFrom :: "string \<Rightarrow> string \<Rightarrow> string list" where
  "fieldsFrom cur [] = (if cur = [] then [] else [cur])"
| "fieldsFrom cur (c # cs) =
     (if spaceWidth (c # cs) = 0 then fieldsFrom (cur @ [c]) cs
      else (if cur = [] then [] else [cur]) @ fieldsFrom [] (drop (spaceWidth (c # cs) - 1) cs))"

definition Fields :: "string \<Rightarrow> string list" where
  "Fields s = fieldsFrom [] s"

fun Join :: "string list \<Rightarrow> string \<Rightarrow> string" where
  "Join [] sep = []"
| "Join [x] sep = x"
| "Join (x # y # ys) sep = x @ sep @ Join (y # ys) sep"

text \<open>
  \<^verbatim>\<open>strings.ReplaceAll(s, old, new)\<close> for a non-empty \<open>old\<close>, the only way main.go
  calls it: the occurrences are replaced from the left and do not overlap.
\<close>

fun ReplaceAll :: "string \<Rightarrow> string \<Rightarrow> string \<Rightarrow> string" where
  "ReplaceAll [] (a # old) new = []"
| "ReplaceAll (c # cs) (a # old) new =
     (if prefix (a # old) (c # cs) then new @ ReplaceAll (drop (length old) cs) (a # old) new
      else c # ReplaceAll cs (a # old) new)"

text \<open>\<^verbatim>\<open>truncate\<close> of main.go (a record declaration takes the name); the appended ellipsis is the three bytes of U+2026.\<close>

definition truncateStr :: "string \<Rightarrow> int \<Rightarrow> string" where
  "truncateStr s n = (if int (length s) \<le> n then s else take (nat n) s @ [CHR 0xE2, CHR 0x80, CHR 0xA6])"

text \<open>The verb \<^verbatim>\<open>%d\<close> of \<^verbatim>\<open>fmt.Sprintf\<close>.\<close>

function showDigits :: "int \<Rightarrow> string" where
  "showDigits n =
     (if n < 10 then [char_of (48 + n)] else showDigits (n div 10) @ [char_of (48 + n mod 10)])"
  by pat_completeness auto
termination
  by (relation "measure nat") auto

definition showInt :: "int \<Rightarrow> string" where
  "showInt i = (if i < 0 then CHR ''-'' # showDigits (- i) else showDigits i)"

text \<open>
  \<^verbatim>\<open>url.QueryEscape\<close> and \<^verbatim>\<open>url.PathEscape\<close>: a byte is kept when the mode does not
  escape it, a space becomes \<^verbatim>\<open>+\<close> in a query component, and every other byte becomes
  \<^verbatim>\<open>%\<close> and its two upper-case hexadecimal digits.
\<close>

definition unreserved :: "char \<Rightarrow> bool" where
  "unreserved c = (isDigit c \<or> isUpper c \<or> isLower c \<or> c \<in> set ''-_.~'')"

definition upperhex :: "nat \<Rightarrow> char" where
  "upperhex n = ''0123456789ABCDEF'' ! n"

definition escByte :: "char \<Rightarrow> string" where
  "escByte c = [CHR ''%'', upperhex ((of_char c :: nat) div 16), upperhex ((of_char c :: nat) mod 16)]"

definition queryEscByte :: "char \<Rightarrow> string" where
  "queryEscByte c = (if unreserved c then [c] else if c = CHR '' '' then ''+'' else escByte c)"

definition QueryEscape :: "string \<Rightarrow> string" where
  "QueryEscape s = concat (map queryEscByte s)"

definition pathEscByte :: "char \<Rightarrow> string" where
  "pathEscByte c = (if unreserved c \<or> c \<in> set ''$&+:=@'' then [c] else escByte c)"

definition PathEscape :: "string \<Rightarrow> string" where
  "PathEscape s = concat (map pathEscByte s)"

section \<open>Query Sanitizer: urlQueryEscape and sanitizeCodeQuery\<close>

definition urlQueryEscape :: "string \<Rightarrow> string" where
  "urlQueryEscape q =
     (let enc = QueryEscape (TrimSpace q);
          enc = ReplaceAll enc ''%3A'' '':'';
          enc = ReplaceAll enc ''%3a'' '':'';
          enc = ReplaceAll enc ''%28'' ''('';
          enc = ReplaceAll enc ''%29'' '')'';
          enc = ReplaceAll enc ''%3E'' ''>'';
          enc = ReplaceAll enc ''%3e'' ''>'';
          enc = ReplaceAll enc ''%3C'' ''<'';
          enc = ReplaceAll enc ''%3c'' ''<'';
          enc = ReplaceAll enc ''%3D'' ''='';
          enc = ReplaceAll enc ''%3d'' ''='';
          enc = ReplaceAll enc ''%2C'' '','';
          enc = ReplaceAll enc ''%2c'' '','';
          enc = ReplaceAll enc ''%2F'' ''/'';
          enc = ReplaceAll enc ''%2f'' ''/'';
          enc = ReplaceAll enc ''%7C'' ''|'';
          enc = ReplaceAll enc ''%7c'' ''|''
      in enc)"

definition urlPathEscape :: "string \<Rightarrow> string" where
  "urlPathEscape p = PathEscape p"

text \<open>
  The regular expression \<^verbatim>\<open>(?i)\bfork\s*:\s*(true|false|only)\b\<close>.  \<open>matchFold\<close>
  matches a literal without regard to case; under \<^verbatim>\<open>(?i)\<close> the letter k also matches
  the Kelvin sign U+212A and the letter s the long s U+017F, both given here by their
  UTF-8 bytes.  \<open>skipSpace\<close> is the greedy \<^verbatim>\<open>\s*\<close>, whose class is tab, line feed,
  form feed, carriage return and space.  A match of \<open>matchFork\<close> returns what follows
  it; the word boundary in front is the caller's argument \<open>prevWord\<close>.
\<close>

definition isReSpace :: "char \<Rightarrow> bool" where
  "isReSpace c = (c \<in> set [CHR 0x09, CHR 0x0A, CHR 0x0C, CHR 0x0D, CHR 0x20])"

fun matchFold :: "string \<Rightarrow> string \<Rightarrow> string option" where
  "matchFold [] s = Some s"
| "matchFold (p # ps) s =
     (case s of
        [] \<Rightarrow> None
      | c # cs \<Rightarrow>
          if lowerChar c = p then matchFold ps cs
          else if p = CHR ''k'' \<and> prefix [CHR 0xE2, CHR 0x84, CHR 0xAA] s then matchFold ps (drop 3 s)
          else if p = CHR ''s'' \<and> prefix [CHR 0xC5, CHR 0xBF] s then matchFold ps (drop 2 s)
          else None)"

definition skipSpace :: "string \<Rightarrow> string" where
  "skipSpace s = dropWhile isReSpace s"

definition wordEnd :: "string \<Rightarrow> bool" where
  "wordEnd s = (case s of [] \<Rightarrow> True | c # cs \<Rightarrow> \<not> isWord c)"

definition matchValue :: "string \<Rightarrow> string option" where
  "matchValue s =
     (case matchFold ''true'' s of
        Some r \<Rightarrow> Some r
      | None \<Rightarrow>
         (case matchFold ''false'' s of
            Some r \<Rightarrow> Some r
          | None \<Rightarrow> matchFold ''only'' s))"

definition matchFork :: "bool \<Rightarrow> string \<Rightarrow> string option" where
  "matchFork prevWord s =
     (if prevWord then None
      else (case matchFold ''fork'' s of
        None \<Rightarrow> None
      | Some r1 \<Rightarrow>
         (case skipSpace r1 of
            [] \<Rightarrow> None
          | c # r2 \<Rightarrow>
             (if c \<noteq> CHR '':'' then None
              else (case matchValue (skipSpace r2) of
                 None \<Rightarrow> None
               | Some r3 \<Rightarrow> (if wordEnd r3 then Some r3 else None))))))"

lemma matchFold_shorter: "matchFold p s = Some r \<Longrightarrow> length r + length p \<le> length s"
proof (induction p arbitrary: s)
  case Nil
  then show ?case by simp
next
  case (Cons a p)
  then obtain c cs where s: "s = c # cs"
    by (cases s) auto
  from Cons.prems s consider
      "matchFold p cs = Some r"
    | "matchFold p (drop 3 s) = Some r" "3 \<le> length s"
    | "matchFold p (drop 2 s) = Some r" "2 \<le> length s"
    by (auto split: if_splits dest: prefix_length_le)
  then show ?case
  proof cases
    case 1
    from Cons.IH [OF 1] s show ?thesis by simp
  next
    case 2
    from Cons.IH [OF 2(1)] 2(2) show ?thesis by simp
  next
    case 3
    from Cons.IH [OF 3(1)] 3(2) show ?thesis by simp
  qed
qed

lemma skipSpace_shorter: "length (skipSpace s) \<le> length s"
  by (simp add: skipSpace_def length_dropWhile_le)

lemma matchFork_shorter:
  assumes "matchFork prevWord s = Some r"
  shows "length r < length s"
proof -
  from assms obtain r1 r2 r3 where
    a: "matchFold ''fork'' s = Some r1" and
    b: "skipSpace r1 = CHR '':'' # r2" and
    c: "matchValue (skipSpace r2) = Some r3" and
    d: "r = r3"
    by (auto simp: matchFork_def simp del: matchFold.simps
        split: if_splits option.splits list.splits)
  from matchFold_shorter [OF a] have "length r1 + 4 \<le> length s"
    by simp
  moreover from b have "length r2 < length r1"
    using skipSpace_shorter [of r1] by simp
  moreover from c obtain p where "matchFold p (skipSpace r2) = Some r3"
    by (auto simp: matchValue_def simp del: matchFold.simps split: option.splits)
  from matchFold_shorter [OF this] have "length r3 \<le> length (skipSpace r2)"
    by simp
  moreover have "length (skipSpace r2) \<le> length r2"
    by (rule skipSpace_shorter)
  ultimately show ?thesis
    using d by simp
qed

text \<open>
  \<^verbatim>\<open>forkQual.ReplaceAllString(q, "")\<close>: the matches are found from the left, a search
  resumes where the last match ended, and every match is deleted.  \<open>prevWord\<close> tells
  whether the byte in front of the position is a word byte; the last byte of a match is
  one.
\<close>

function ReplaceAllFork :: "bool \<Rightarrow> string \<Rightarrow> string" where
  "ReplaceAllFork prevWord [] = []"
| "ReplaceAllFork prevWord (c # cs) =
     (case matchFork prevWord (c # cs) of
        Some r \<Rightarrow> ReplaceAllFork True r
      | None \<Rightarrow> c # ReplaceAllFork (isWord c) cs)"
  by pat_completeness auto
termination
proof (relation "measure (\<lambda>(w, s). length s)")
  show "wf (measure (\<lambda>(w, s). length s))"
    by simp
next
  fix prevWord :: bool and c :: char and cs r :: string
  assume "matchFork prevWord (c # cs) = Some r"
  then show "((True, r), (prevWord, c # cs)) \<in> measure (\<lambda>(w, s). length s)"
    using matchFork_shorter by fastforce
next
  fix prevWord :: bool and c :: char and cs :: string
  show "((isWord c, cs), (prevWord, c # cs)) \<in> measure (\<lambda>(w, s). length s)"
    by simp
qed

definition sanitizeCodeQuery :: "string \<Rightarrow> string" where
  "sanitizeCodeQuery q =
     (let q = ReplaceAllFork False q;
          q = Join (Fields q) '' ''
      in TrimSpace q)"

section \<open>Numbers: strconv and 64-bit arithmetic\<close>

text \<open>
  Go's \<^verbatim>\<open>int\<close>, \<^verbatim>\<open>int64\<close> and \<^verbatim>\<open>time.Duration\<close> are 64-bit two's-complement
  integers.  They are modelled by \<^typ>\<open>int\<close>, and \<open>wrap64\<close> is written wherever the
  source computes a value that can leave the 64-bit range.
\<close>

definition maxInt64 :: int where
  "maxInt64 = 9223372036854775807"

definition minInt64 :: int where
  "minInt64 = - 9223372036854775808"

definition wrap64 :: "int \<Rightarrow> int" where
  "wrap64 x = (x + 9223372036854775808) mod 18446744073709551616 - 9223372036854775808"

text \<open>Go's \<^verbatim>\<open>%\<close> on integers: the remainder of the division that truncates.\<close>

definition goRem :: "int \<Rightarrow> int \<Rightarrow> int" where
  "goRem a b = sgn a * (\<bar>a\<bar> mod \<bar>b\<bar>)"

text \<open>
  \<^verbatim>\<open>strconv.ParseUint(s, 10, 64)\<close> reads the digits from the left: a byte that is no
  digit is a syntax error, and a value that leaves the unsigned 64-bit range is a range
  error as soon as it does.
\<close>

datatype numError = ErrSyntax | ErrRange

fun parseUintFrom :: "int \<Rightarrow> string \<Rightarrow> numError + int" where
  "parseUintFrom n [] = Inr n"
| "parseUintFrom n (c # cs) =
     (if \<not> isDigit c then Inl ErrSyntax
      else if n \<ge> 1844674407370955162 then Inl ErrRange
      else (let n1 = n * 10 + ((of_char c :: int) - 48) in
            if n1 > 18446744073709551615 then Inl ErrRange else parseUintFrom n1 cs))"

definition ParseUint :: "string \<Rightarrow> numError + int" where
  "ParseUint s = (if s = [] then Inl ErrSyntax else parseUintFrom 0 s)"

text \<open>
  \<^verbatim>\<open>strconv.ParseInt(s, 10, 64)\<close>: the value and whether the error is nil.  With a
  syntax error the value is 0, with a range error the nearest bound.
\<close>

definition ParseInt :: "string \<Rightarrow> int \<times> bool" where
  "ParseInt s =
     (case s of
        [] \<Rightarrow> (0, False)
      | c # cs \<Rightarrow>
         (let neg = (c = CHR ''-'');
              digits = (if c = CHR ''+'' \<or> c = CHR ''-'' then cs else s)
          in (case ParseUint digits of
                Inl ErrSyntax \<Rightarrow> (0, False)
              | Inl ErrRange \<Rightarrow> (if neg then (minInt64, False) else (maxInt64, False))
              | Inr un \<Rightarrow>
                  (if \<not> neg \<and> un \<ge> 9223372036854775808 then (maxInt64, False)
                   else if neg \<and> un > 9223372036854775808 then (minInt64, False)
                   else (if neg then - un else un, True)))))"

text \<open>\<^verbatim>\<open>strconv.Atoi\<close> on a 64-bit platform returns what ParseInt does.\<close>

definition Atoi :: "string \<Rightarrow> int \<times> bool" where
  "Atoi s = ParseInt s"

section \<open>Rate Governor: throttleFrom\<close>

text \<open>
  A response as main.go reads it: the status code, the headers through
  \<^verbatim>\<open>Header.Get\<close> (the empty string for an absent header), and the bytes that
  \<^verbatim>\<open>io.ReadAll\<close> delivered.
\<close>

record response =
  StatusCode :: int
  Header :: "string \<Rightarrow> string"
  Body :: string

definition Millisecond :: int where
  "Millisecond = 1000000"

definition Second :: int where
  "Second = 1000000000"

definition Minute :: int where
  "Minute = 60 * 1000000000"

definition Hour :: int where
  "Hour = 3600 * 1000000000"

text \<open>
  \<^verbatim>\<open>time.Unix(sec, 0)\<close> keeps the seconds since year 1 in an int64, so the shift from
  the Unix epoch wraps; \<^verbatim>\<open>time.Until(t)\<close> is \<^verbatim>\<open>t.Sub(time.Now())\<close>, which stops
  at the largest and the smallest duration; \<^verbatim>\<open>UnixNano\<close> is the int64 count of
  nanoseconds since the Unix epoch.
\<close>

definition unixToInternal :: int where
  "unixToInternal = 62135596800"

definition Unix :: "int \<Rightarrow> time" where
  "Unix sec = wrap64 (sec + unixToInternal) * Second"

definition Until :: "time \<Rightarrow> time \<Rightarrow> int" where
  "Until now t = max minInt64 (min maxInt64 (t - now))"

definition UnixNano :: "time \<Rightarrow> int" where
  "UnixNano t = wrap64 (t - unixToInternal * Second)"

text \<open>
  throttleFrom only sleeps.  The model returns the duration handed to
  \<^verbatim>\<open>time.Sleep\<close>, given the instant \<open>now\<close> that \<^verbatim>\<open>time.Now()\<close> yields inside the
  call; \<open>slept\<close> is the pause that results, since \<^verbatim>\<open>time.Sleep\<close> returns at once for
  a duration that is not positive.
\<close>

definition throttleFrom :: "time \<Rightarrow> response \<Rightarrow> int" where
  "throttleFrom now resp =
     (let resource = ToLower (Header resp ''X-RateLimit-Resource'');
          baseWait = (if resource = ''search'' then 12 * Second else 1500 * Millisecond);
          rem = fst (Atoi (Header resp ''X-RateLimit-Remaining''));
          ra = Header resp ''Retry-After''
      in if ra \<noteq> [] \<and> snd (Atoi (TrimSpace ra)) \<and> fst (Atoi (TrimSpace ra)) > 0
         then wrap64 (wrap64 (fst (Atoi (TrimSpace ra)) * Second) + 500 * Millisecond)
         else if StatusCode resp = 403 \<or> rem \<le> 2
         then (let (resetUnix, ok) = ParseInt (Header resp ''X-RateLimit-Reset'');
                   wait = Until now (Unix resetUnix)
               in if ok \<and> wait > 0
                  then (let capWait = (if resource \<noteq> ''search'' then 5 * Minute else 2 * Minute);
                            wait = (if wait > capWait then capWait else wait)
                        in wait + 500 * Millisecond)
                  else if resource = ''search'' then 90 * Second else 30 * Second)
         else (let jitterMs = goRem (UnixNano now) (2000 * Millisecond)
               in wrap64 (baseWait + jitterMs)))"

definition slept :: "int \<Rightarrow> int" where
  "slept d = max 0 d"

section \<open>The GitHub client and its JSON\<close>

record codeRepo =
  crFullName :: string
  crHTMLURL :: string
  crLanguage :: string

record codeItem =
  ciName :: string
  ciPath :: string
  ciSHA :: string
  ciHTMLURL :: string
  ciRepository :: codeRepo

record codeSearchResp =
  csTotalCount :: int
  csIncompleteResults :: bool
  csItems :: "codeItem list"

record repoItem =
  riFullName :: string
  riHTMLURL :: string
  riDescription :: string
  riPushedAt :: string
  riCreatedAt :: string
  riTopics :: "string list"

record repoSearchResp =
  rsTotalCount :: int
  rsIncompleteResults :: bool
  rsItems :: "repoItem list"

record commitEntry =
  ceSHA :: string
  ceAuthorDate :: string
  ceHTMLURL :: string

text \<open>
  The three ways runSearches returns an error: \<^verbatim>\<open>ctx.Err()\<close> after the context is
  done, the error of \<^verbatim>\<open>client.get\<close>, and the error of \<^verbatim>\<open>json.Unmarshal\<close>.
\<close>

datatype ctxError = Canceled | DeadlineExceeded

datatype error = CtxErr ctxError | TransportErr string | BodyErr string

text \<open>
  What a run reads from outside the program.  The search phase is sequential, so the
  number of requests issued so far (\<open>tick\<close> below) names a point of the run:
  \<open>ctxErr E t\<close> is what the \<^verbatim>\<open>select\<close> on \<^verbatim>\<open>ctx.Done()\<close> sees there (\<open>None\<close>: not
  done) and \<open>clientGet E t url\<close> what \<^verbatim>\<open>client.get(ctx, url)\<close> returns (\<open>Inl\<close>: its
  error).  \<open>commitsGet E i url\<close> is the answer to the commits request of job \<open>i\<close> of
  the enrichment.  The \<^verbatim>\<open>json.Unmarshal\<close> calls, \<^verbatim>\<open>time.Parse(time.RFC3339, _)\<close>
  with its error dropped (the zero time on failure) and \<^verbatim>\<open>Time.Format\<close> are library
  functions taken as they are; \<open>jsonCommits\<close> is the slice that Unmarshal leaves, its
  error being ignored by the source.
\<close>

record env =
  timeNow :: time
  generatedNow :: string
  ctxErr :: "nat \<Rightarrow> ctxError option"
  clientGet :: "nat \<Rightarrow> string \<Rightarrow> string + response"
  commitsGet :: "nat \<Rightarrow> string \<Rightarrow> string + response"
  jsonCode :: "string \<Rightarrow> string + codeSearchResp"
  jsonRepo :: "string \<Rightarrow> string + repoSearchResp"
  jsonCommits :: "string \<Rightarrow> commitEntry list"
  timeParse :: "string \<Rightarrow> time"
  formatRFC3339 :: "time \<Rightarrow> string"
  formatDate :: "time \<Rightarrow> string"

section \<open>Search Paginator: the loops of runSearches\<close>

text \<open>
  The variables of runSearches that the loops update, the count of requests issued, and
  the responses handed to throttleFrom, in order.  The calls of \<^verbatim>\<open>emit\<close> only feed the
  diagnostics sink of the caller and leave every returned value alone; they are not
  part of the state.
\<close>

record rstate =
  tick :: nat
  codeHits :: "CodeHit list"
  repoHits :: "RepoHit list"
  runNotes :: "string list"
  throttled :: "response list"

definition qNameOf :: "SearchGroup \<Rightarrow> SearchQuery \<Rightarrow> string" where
  "qNameOf g q = sgName g @ [CHR '' '', CHR 0xE2, CHR 0x80, CHR 0x94, CHR '' ''] @ sqName q"

definition codeSearchURL :: "string \<Rightarrow> int \<Rightarrow> int \<Rightarrow> string" where
  "codeSearchURL escaped perPage page =
     ''https://api.github.com/search/code?q='' @ escaped @ ''&sort=indexed&order=desc&per_page=''
       @ showInt perPage @ ''&page='' @ showInt page"

definition repoSearchURL :: "string \<Rightarrow> int \<Rightarrow> int \<Rightarrow> string" where
  "repoSearchURL escaped perPage page =
     ''https://api.github.com/search/repositories?q='' @ escaped @ ''&sort=updated&order=desc&per_page=''
       @ showInt perPage @ ''&page='' @ showInt page"

definition statusNote :: "string \<Rightarrow> response \<Rightarrow> string \<Rightarrow> string" where
  "statusNote qName resp url =
     ''('' @ qName @ '') status='' @ showInt (StatusCode resp)
       @ '' remaining='' @ Header resp ''X-RateLimit-Remaining''
       @ '' reset='' @ Header resp ''X-RateLimit-Reset''
       @ '' url='' @ url @ '' body='' @ truncateStr (Body resp) 400"

definition retryNote :: "string \<Rightarrow> response \<Rightarrow> string \<Rightarrow> string" where
  "retryNote qName resp2 strictURL =
     ''('' @ qName @ '') retry strict status='' @ showInt (StatusCode resp2)
       @ '' remaining='' @ Header resp2 ''X-RateLimit-Remaining''
       @ '' reset='' @ Header resp2 ''X-RateLimit-Reset''
       @ '' url='' @ strictURL @ '' body='' @ truncateStr (Body resp2) 400"

definition codeHitOf :: "SearchGroup \<Rightarrow> SearchQuery \<Rightarrow> codeItem \<Rightarrow> CodeHit" where
  "codeHitOf g q it =
     \<lparr>Group = sgName g, QueryName = sqName q,
      Repository = crFullName (ciRepository it), RepoURL = crHTMLURL (ciRepository it),
      FilePath = ciPath it, FileURL = ciHTMLURL it, Language = crLanguage (ciRepository it),
      RepoPushed = 0, CommitDate = 0\<rparr>"

definition repoHitOf :: "env \<Rightarrow> SearchGroup \<Rightarrow> SearchQuery \<Rightarrow> repoItem \<Rightarrow> RepoHit" where
  "repoHitOf E g q it =
     \<lparr>rhGroup = sgName g, rhQueryName = sqName q,
      FullName = riFullName it, HTMLURL = riHTMLURL it, Description = riDescription it,
      PushedAt = timeParse E (riPushedAt it), CreatedAt = timeParse E (riCreatedAt it)\<rparr>"

text \<open>
  One pass through the body of a pagination loop ends in one of three ways:
  \<^verbatim>\<open>return Findings{}, err\<close>, \<^verbatim>\<open>break\<close>, or the next iteration (by \<^verbatim>\<open>continue\<close>
  or by reaching the end of the body).  \<open>Break\<close> carries foundThisQuery and the state,
  \<open>Continue\<close> the page as well.
\<close>

datatype ctl = Return error | Break int rstate | Continue int int rstate

text \<open>The body of \<^verbatim>\<open>for page <= maxPages\<close> under \<^verbatim>\<open>case "code"\<close>.\<close>

definition codePage ::
  "env \<Rightarrow> int \<Rightarrow> SearchGroup \<Rightarrow> SearchQuery \<Rightarrow> int \<Rightarrow> int \<Rightarrow> rstate \<Rightarrow> ctl" where
  "codePage E perPage g q page found s =
     (case ctxErr E (tick s) of
        Some err \<Rightarrow> Return (CtxErr err)
      | None \<Rightarrow>
         (let rawQ = sanitizeCodeQuery (sqQuery q);
              url = codeSearchURL (urlQueryEscape rawQ) perPage page
          in (case clientGet E (tick s) url of
                Inl err \<Rightarrow> Return (TransportErr err)
              | Inr resp \<Rightarrow>
                 (let s = s\<lparr>tick := tick s + 1\<rparr> in
                  if StatusCode resp \<noteq> 200 then
                    (let strictURL = codeSearchURL (QueryEscape (TrimSpace rawQ)) perPage page;
                         giveUp = (\<lambda>s. Break found
                           (s\<lparr>runNotes := runNotes s @ [statusNote (qNameOf g q) resp url],
                              throttled := throttled s @ [resp]\<rparr>))
                     in if StatusCode resp = 422 then
                          (case clientGet E (tick s) strictURL of
                             Inl err2 \<Rightarrow> giveUp (s\<lparr>tick := tick s + 1\<rparr>)
                           | Inr resp2 \<Rightarrow>
                              (let s = s\<lparr>tick := tick s + 1\<rparr> in
                               if StatusCode resp2 = 200 then
                                 (case jsonCode E (Body resp2) of
                                    Inl err \<Rightarrow> Return (BodyErr err)
                                  | Inr cr2 \<Rightarrow>
                                     if csItems cr2 = [] then Break found s
                                     else Continue (page + 1) (found + int (length (csItems cr2)))
                                       (s\<lparr>codeHits := codeHits s @ map (codeHitOf g q) (csItems cr2),
                                          throttled := throttled s @ [resp2]\<rparr>))
                               else giveUp
                                 (s\<lparr>runNotes := runNotes s @ [retryNote (qNameOf g q) resp2 strictURL]\<rparr>)))
                        else giveUp s)
                  else
                    (case jsonCode E (Body resp) of
                       Inl err \<Rightarrow> Return (BodyErr err)
                     | Inr cr \<Rightarrow>
                        if csItems cr = [] then Break found s
                        else Continue (page + 1) (found + int (length (csItems cr)))
                          (s\<lparr>codeHits := codeHits s @ map (codeHitOf g q) (csItems cr),
                             throttled := throttled s @ [resp]\<rparr>))))))"

lemma codePage_Continue:
  "codePage E perPage g q page found s = Continue page' found' s' \<Longrightarrow> page' = page + 1"
  by (auto simp: codePage_def Let_def split: option.splits sum.splits if_splits)

function codeLoop ::
  "env \<Rightarrow> int \<Rightarrow> int \<Rightarrow> SearchGroup \<Rightarrow> SearchQuery \<Rightarrow> int \<Rightarrow> int \<Rightarrow> rstate
     \<Rightarrow> error + int \<times> rstate" where
  "codeLoop E perPage maxPages g q page found s =
     (if page \<le> maxPages then
        (case codePage E perPage g q page found s of
           Return err \<Rightarrow> Inl err
         | Break found' s' \<Rightarrow> Inr (found', s')
         | Continue page' found' s' \<Rightarrow> codeLoop E perPage maxPages g q page' found' s')
      else Inr (found, s))"
  by pat_completeness auto
termination
proof (relation "measure (\<lambda>(E, perPage, maxPages, g, q, page, found, s). nat (maxPages + 1 - page))")
  show "wf (measure (\<lambda>(E, perPage, maxPages, g, q, page, found, s). nat (maxPages + 1 - page)))"
    by simp
next
  fix E perPage maxPages g q page found s page' found' s'
  assume "page \<le> maxPages" and "codePage E perPage g q page found s = Continue page' found' s'"
  then show "((E, perPage, maxPages, g, q, page', found', s'),
              (E, perPage, maxPages, g, q, page, found, s))
      \<in> measure (\<lambda>(E, perPage, maxPages, g, q, page, found, s). nat (maxPages + 1 - page))"
    using codePage_Continue by fastforce
qed

text \<open>The body of \<^verbatim>\<open>for page <= maxPages\<close> under \<^verbatim>\<open>case "repo"\<close>.\<close>

definition repoPage ::
  "env \<Rightarrow> time \<Rightarrow> int \<Rightarrow> SearchGroup \<Rightarrow> SearchQuery \<Rightarrow> string \<Rightarrow> int \<Rightarrow> int \<Rightarrow> rstate \<Rightarrow> ctl" where
  "repoPage E since perPage g q baseQ page found s =
     (case ctxErr E (tick s) of
        Some err \<Rightarrow> Return (CtxErr err)
      | None \<Rightarrow>
         (let url = repoSearchURL (urlQueryEscape baseQ) perPage page
          in (case clientGet E (tick s) url of
                Inl err \<Rightarrow> Return (TransportErr err)
              | Inr resp \<Rightarrow>
                 (let s = s\<lparr>tick := tick s + 1\<rparr> in
                  if StatusCode resp \<noteq> 200 then
                    Break found
                      (s\<lparr>runNotes := runNotes s @ [statusNote (qNameOf g q) resp url],
                         throttled := throttled s @ [resp]\<rparr>)
                  else
                    (case jsonRepo E (Body resp) of
                       Inl err \<Rightarrow> Return (BodyErr err)
                     | Inr rr \<Rightarrow>
                        if rsItems rr = [] then Break found s
                        else
                          (let kept = filter (\<lambda>it. \<not> Before (timeParse E (riPushedAt it)) since)
                                        (rsItems rr)
                           in Continue (page + 1) (found + int (length kept))
                                (s\<lparr>repoHits := repoHits s @ map (repoHitOf E g q) kept,
                                   throttled := throttled s @ [resp]\<rparr>)))))))"

lemma repoPage_Continue:
  "repoPage E since perPage g q baseQ page found s = Continue page' found' s' \<Longrightarrow> page' = page + 1"
  by (auto simp: repoPage_def Let_def split: option.splits sum.splits if_splits)

function repoLoop ::
  "env \<Rightarrow> time \<Rightarrow> int \<Rightarrow> int \<Rightarrow> SearchGroup \<Rightarrow> SearchQuery \<Rightarrow> string \<Rightarrow> int \<Rightarrow> int \<Rightarrow> rstate
     \<Rightarrow> error + int \<times> rstate" where
  "repoLoop E since perPage maxPages g q baseQ page found s =
     (if page \<le> maxPages then
        (case repoPage E since perPage g q baseQ page found s of
           Return err \<Rightarrow> Inl err
         | Break found' s' \<Rightarrow> Inr (found', s')
         | Continue page' found' s' \<Rightarrow> repoLoop E since perPage maxPages g q baseQ page' found' s')
      else Inr (found, s))"
  by pat_completeness auto
termination
proof (relation
    "measure (\<lambda>(E, since, perPage, maxPages, g, q, baseQ, page, found, s). nat (maxPages + 1 - page))")
  show "wf (measure
      (\<lambda>(E, since, perPage, maxPages, g, q, baseQ, page, found, s). nat (maxPages + 1 - page)))"
    by simp
next
  fix E since perPage maxPages g q baseQ page found s page' found' s'
  assume "page \<le> maxPages"
    and "repoPage E since perPage g q baseQ page found s = Continue page' found' s'"
  then show "((E, since, perPage, maxPages, g, q, baseQ, page', found', s'),
              (E, since, perPage, maxPages, g, q, baseQ, page, found, s))
      \<in> measure
          (\<lambda>(E, since, perPage, maxPages, g, q, baseQ, page, found, s). nat (maxPages + 1 - page))"
    using repoPage_Continue by fastforce
qed

text \<open>
  The body of \<^verbatim>\<open>for _, q := range g.Searches\<close>: the \<^verbatim>\<open>switch\<close> on the lower-cased
  type of an enabled query.
\<close>

definition runQuery ::
  "env \<Rightarrow> AppSettings \<Rightarrow> time \<Rightarrow> SearchGroup \<Rightarrow> SearchQuery \<Rightarrow> rstate \<Rightarrow> error + rstate" where
  "runQuery E cfg since g q s =
     (if \<not> sqEnabled q then Inr s
      else if ToLower (sqType q) = ''code'' then
        (case codeLoop E (PerPage cfg) (MaxPages cfg) g q 1 0 s of
           Inl err \<Rightarrow> Inl err
         | Inr (foundThisQuery, s) \<Rightarrow>
            Inr (if foundThisQuery = 0
                 then s\<lparr>runNotes := runNotes s @ [''No code hits returned for '' @ qNameOf g q]\<rparr>
                 else s))
      else if ToLower (sqType q) = ''repo'' then
        (if \<not> IncludeRepoSearch cfg then Inr s
         else
           (let baseQ = sqQuery q @ '' pushed:>='' @ formatDate E since in
            case repoLoop E since (PerPage cfg) (MaxPages cfg) g q baseQ 1 0 s of
              Inl err \<Rightarrow> Inl err
            | Inr (foundThisQuery, s) \<Rightarrow>
               Inr (if foundThisQuery = 0
                    then s\<lparr>runNotes := runNotes s @ [''No repo hits for '' @ qNameOf g q]\<rparr>
                    else s)))
      else Inr (s\<lparr>runNotes := runNotes s
                 @ [''Unknown type for '' @ qNameOf g q @ '': '' @ sqType q]\<rparr>))"

fun runQueries ::
  "env \<Rightarrow> AppSettings \<Rightarrow> time \<Rightarrow> SearchGroup \<Rightarrow> SearchQuery list \<Rightarrow> rstate \<Rightarrow> error + rstate" where
  "runQueries E cfg since g [] s = Inr s"
| "runQueries E cfg since g (q # qs) s =
     (case runQuery E cfg since g q s of
        Inl err \<Rightarrow> Inl err
      | Inr s' \<Rightarrow> runQueries E cfg since g qs s')"

text \<open>\<^verbatim>\<open>for _, g := range spec.Groups\<close>, a disabled group being skipped.\<close>

fun runGroups ::
  "env \<Rightarrow> AppSettings \<Rightarrow> time \<Rightarrow> SearchGroup list \<Rightarrow> rstate \<Rightarrow> error + rstate" where
  "runGroups E cfg since [] s = Inr s"
| "runGroups E cfg since (g # gs) s =
     (if \<not> sgEnabled g then runGroups E cfg since gs s
      else (case runQueries E cfg since g (Searches g) s of
              Inl err \<Rightarrow> Inl err
            | Inr s' \<Rightarrow> runGroups E cfg since gs s'))"

section \<open>Enrichment Fan-Out: enrichWithCommitDates\<close>

definition commitsURL :: "env \<Rightarrow> time \<Rightarrow> CodeHit \<Rightarrow> string" where
  "commitsURL E since h =
     ''https://api.github.com/repos/'' @ Repository h @ ''/commits?path='' @ PathEscape (FilePath h)
       @ ''&since='' @ formatRFC3339 E since @ ''&per_page=1''"

text \<open>
  What a worker sends on the result channel for job \<open>(i, h)\<close>: the zero time after an
  error of the request, a status other than 200 or an empty list, else the parsed date
  of the first commit.  The sleeps of throttleFrom on the workers are not recorded.
\<close>

definition workerResult :: "env \<Rightarrow> time \<Rightarrow> nat \<Rightarrow> CodeHit \<Rightarrow> time" where
  "workerResult E since i h =
     (case commitsGet E i (commitsURL E since h) of
        Inl err \<Rightarrow> 0
      | Inr resp \<Rightarrow>
         if StatusCode resp = 200 then
           (case jsonCommits E (Body resp) of
              [] \<Rightarrow> 0
            | c # cr \<Rightarrow> timeParse E (ceAuthorDate c))
         else 0)"

text \<open>
  The worker pool as a transition system.  \<open>nextJob\<close> counts the jobs that the feeding
  goroutine has handed over, \<open>busy\<close> holds the jobs that a worker has received and not
  yet answered, \<open>out\<close> is the output slice.  The channels are unbuffered: a job is
  handed over only to a worker that waits for one (\<open>Take\<close>, possible while fewer than
  \<open>W\<close> workers are busy), and a result is sent only when the caller receives it and
  writes \<^verbatim>\<open>out[r.i].CommitDate = r.t\<close> (\<open>Deliver\<close>; an index outside \<open>out\<close> would
  be a panic and is no transition).  A schedule is the list of these events in the
  order in which they happen; the workers may finish in any order.  \<open>poolRun\<close> is
  \<open>None\<close> for a schedule with an event that cannot happen.
\<close>

record pool =
  nextJob :: nat
  busy :: "nat list"
  out :: "CodeHit list"

datatype poolEvent = Take | Deliver nat

definition poolStep ::
  "env \<Rightarrow> time \<Rightarrow> CodeHit list \<Rightarrow> nat \<Rightarrow> poolEvent \<Rightarrow> pool \<Rightarrow> pool option" where
  "poolStep E since hits W ev p =
     (case ev of
        Take \<Rightarrow>
          if nextJob p < length hits \<and> length (busy p) < W
          then Some (p\<lparr>nextJob := nextJob p + 1, busy := busy p @ [nextJob p]\<rparr>)
          else None
      | Deliver i \<Rightarrow>
          if i \<in> set (busy p) \<and> i < length (out p)
          then Some (p\<lparr>busy := remove1 i (busy p),
                       out := (out p)[i := (out p ! i)\<lparr>CommitDate := workerResult E since i (hits ! i)\<rparr>]\<rparr>)
          else None)"

fun poolRun ::
  "env \<Rightarrow> time \<Rightarrow> CodeHit list \<Rightarrow> nat \<Rightarrow> poolEvent list \<Rightarrow> pool \<Rightarrow> pool option" where
  "poolRun E since hits W [] p = Some p"
| "poolRun E since hits W (ev # evs) p =
     (case poolStep E since hits W ev p of
        None \<Rightarrow> None
      | Some p' \<Rightarrow> poolRun E since hits W evs p')"

definition poolInit :: "CodeHit list \<Rightarrow> pool" where
  "poolInit hits = \<lparr>nextJob = 0, busy = [], out = hits\<rparr>"

definition poolDone :: "CodeHit list \<Rightarrow> pool \<Rightarrow> bool" where
  "poolDone hits p = (nextJob p = length hits \<and> busy p = [])"

text \<open>
  What holds in every state that a schedule reaches: the jobs handed over and answered
  carry their result, every other position of \<open>out\<close> is as in \<open>hits\<close>.
\<close>

definition poolInv :: "env \<Rightarrow> time \<Rightarrow> CodeHit list \<Rightarrow> pool \<Rightarrow> bool" where
  "poolInv E since hits p =
     (nextJob p \<le> length hits \<and> distinct (busy p) \<and> (\<forall>i \<in> set (busy p). i < nextJob p)
      \<and> length (out p) = length hits
      \<and> (\<forall>i < length hits.
            out p ! i =
              (if i < nextJob p \<and> i \<notin> set (busy p)
               then (hits ! i)\<lparr>CommitDate := workerResult E since i (hits ! i)\<rparr>
               else hits ! i)))"

text \<open>
  The slice that enrichWithCommitDates returns; that every complete schedule of the
  pool ends with it, whatever the order of the workers, is what the theorem on the pool
  below states.
\<close>

definition enrichWithCommitDates :: "env \<Rightarrow> time \<Rightarrow> CodeHit list \<Rightarrow> CodeHit list" where
  "enrichWithCommitDates E since hits =
     map (\<lambda>(i, h). h\<lparr>CommitDate := workerResult E since i h\<rparr>) (enumerate 0 hits)"

section \<open>runSearches\<close>

definition sinceOf :: "time \<Rightarrow> int \<Rightarrow> time" where
  "sinceOf now daysBack = now + wrap64 (wrap64 (wrap64 (- daysBack) * 24) * Hour)"

text \<open>
  The block under \<^verbatim>\<open>if cfg.UseCommitCheck && len(codeHits) > 0\<close>, and the two sorts,
  each under its guard on the length.
\<close>

definition commitCheck :: "env \<Rightarrow> AppSettings \<Rightarrow> time \<Rightarrow> CodeHit list \<Rightarrow> CodeHit list" where
  "commitCheck E cfg since hits =
     (if UseCommitCheck cfg \<and> length hits > 0
      then filter (\<lambda>h. \<not> IsZero (CommitDate h) \<and> \<not> Before (CommitDate h) since)
             (enrichWithCommitDates E since hits)
      else hits)"

definition sortCodeHits :: "CodeHit list \<Rightarrow> CodeHit list" where
  "sortCodeHits hits = (if length hits > 1 then sortSlice codeLess hits else hits)"

definition sortRepoHits :: "RepoHit list \<Rightarrow> RepoHit list" where
  "sortRepoHits hits = (if length hits > 1 then sortSlice repoLess hits else hits)"

definition initState :: rstate where
  "initState = \<lparr>tick = 0, codeHits = [], repoHits = [], runNotes = [], throttled = []\<rparr>"

definition runSearches :: "env \<Rightarrow> AppSettings \<Rightarrow> QueriesSpec \<Rightarrow> Findings \<times> error option" where
  "runSearches E cfg spec =
     (let since = sinceOf (timeNow E) (DaysBack cfg);
          sinceISO = formatRFC3339 E since
      in case runGroups E cfg since (Groups spec) initState of
           Inl err \<Rightarrow> (zeroFindings, Some err)
         | Inr s \<Rightarrow>
            (let codeHits = sortCodeHits (commitCheck E cfg since (codeHits s));
                 repoHits = sortRepoHits (repoHits s)
             in (\<lparr>RunID = [], SinceISO = sinceISO, fDaysBack = DaysBack cfg,
                   Generated = generatedNow E,
                   CodeHits = dedupeCode codeHits, RepoHits = dedupeRepo repoHits,
                   Notes = runNotes s\<rparr>, None)))"

text \<open>
  Two names for parts of runSearches that the statements below speak of: the start of
  the window, and the state in which the loops over the groups end.
\<close>

definition windowStart :: "env \<Rightarrow> AppSettings \<Rightarrow> time" where
  "windowStart E cfg = sinceOf (timeNow E) (DaysBack cfg)"

definition searchPhase :: "env \<Rightarrow> AppSettings \<Rightarrow> QueriesSpec \<Rightarrow> error + rstate" where
  "searchPhase E cfg spec = runGroups E cfg (windowStart E cfg) (Groups spec) initState"




text \<open>
  What the specification says of the lenient encoding: the string is percent-encoded,
  and of the encoded bytes exactly the colon, the parentheses, the comparison signs,
  the equals sign, the comma, the slash and the pipe are restored.  \<open>lenientByte\<close> is
  written from these words, for the comparison with urlQueryEscape.
\<close>

definition operatorChars :: string where
  "operatorChars = '':()><=,/|''"

definition lenientByte :: "char \<Rightarrow> string" where
  "lenientByte c = (if c \<in> set operatorChars then [c] else queryEscByte c)"


definition isOperator :: "char \<Rightarrow> bool" where
  "isOperator c = (c \<in> set operatorChars)"


text \<open>
  The output of \<^verbatim>\<open>url.QueryEscape\<close> read as a sequence of tokens, a token being one
  byte other than the percent sign or a percent sign with its two digits; \<open>restore\<close> is
  what one \<^verbatim>\<open>strings.ReplaceAll\<close> of urlQueryEscape does to a token, \<open>restoreAll\<close>
  what the sixteen of them do, and \<open>restoredByte\<close> collects what is checked of each of
  the 256 bytes.
\<close>

definition restore :: "string \<Rightarrow> string \<Rightarrow> string \<Rightarrow> string" where
  "restore old new t = (if t = old then new else t)"

definition restoreAll :: "string \<Rightarrow> string" where
  "restoreAll t =
     (restore ''%7c'' ''|'' (restore ''%7C'' ''|'' (restore ''%2f'' ''/'' (restore ''%2F'' ''/''
     (restore ''%2c'' '','' (restore ''%2C'' '','' (restore ''%3d'' ''='' (restore ''%3D'' ''=''
     (restore ''%3c'' ''<'' (restore ''%3C'' ''<'' (restore ''%3e'' ''>'' (restore ''%3E'' ''>''
     (restore ''%29'' '')'' (restore ''%28'' ''('' (restore ''%3a'' '':'' (restore ''%3A'' '':'' t))))))))))))))))"

fun token :: "string \<Rightarrow> bool" where
  "token [c] = (c \<noteq> CHR ''%'')"
| "token [p, a, b] = (p = CHR ''%'' \<and> a \<noteq> CHR ''%'' \<and> b \<noteq> CHR ''%'')"
| "token t = False"


definition restoredByte :: "char \<Rightarrow> bool" where
  "restoredByte c =
     (token (queryEscByte c) \<and> restoreAll (queryEscByte c) = lenientByte c
      \<and> filter isOperator (lenientByte c) = (if isOperator c then [c] else []))"


text \<open>
  What the specification says of the sanitizer: the fork qualifiers are stripped, the
  white space is collapsed, and nothing else changes.  \<open>forkQualifiers\<close> counts the
  qualifiers that \<^verbatim>\<open>forkQual\<close> finds in a query, in the way ReplaceAllFork finds
  them, and \<open>isGraphic\<close> holds of the visible ASCII bytes, the operator characters
  among them.
\<close>

function forkQualifiers :: "bool \<Rightarrow> string \<Rightarrow> nat" where
  "forkQualifiers prevWord [] = 0"
| "forkQualifiers prevWord (c # cs) =
     (case matchFork prevWord (c # cs) of
        Some r \<Rightarrow> Suc (forkQualifiers True r)
      | None \<Rightarrow> forkQualifiers (isWord c) cs)"
  by pat_completeness auto
termination
proof (relation "measure (\<lambda>(w, s). length s)")
  show "wf (measure (\<lambda>(w, s). length s))"
    by simp
next
  fix prevWord :: bool and c :: char and cs r :: string
  assume "matchFork prevWord (c # cs) = Some r"
  then show "((True, r), (prevWord, c # cs)) \<in> measure (\<lambda>(w, s). length s)"
    using matchFork_shorter by fastforce
next
  fix prevWord :: bool and c :: char and cs :: string
  show "((isWord c, cs), (prevWord, c # cs)) \<in> measure (\<lambda>(w, s). length s)"
    by simp
qed


definition isGraphic :: "char \<Rightarrow> bool" where
  "isGraphic c = (33 \<le> (of_char c :: nat) \<and> (of_char c :: nat) \<le> 126)"


text \<open>
  \<open>spaceByte\<close> holds of the bytes of the white-space runes, \<open>quietByte\<close> of the bytes
  other than the colon that a fork qualifier can consist of, and a string is \<open>clean\<close>
  when no white-space rune stands at any of its positions, as it is in every field.
\<close>

definition spaceByte :: "char \<Rightarrow> bool" where
  "spaceByte c = (c \<in> \<Union> (set ` set spaceRunes))"


definition quietByte :: "char \<Rightarrow> bool" where
  "quietByte c =
     (lowerChar c \<in> set ''forktuealsny''
      \<or> c \<in> set [CHR 0xE2, CHR 0x84, CHR 0xAA, CHR 0xC5, CHR 0xBF]
      \<or> isReSpace c)"


definition clean :: "string \<Rightarrow> bool" where
  "clean f = (\<forall>i < length f. spaceWidth (drop i f) = 0)"


text \<open>
  What the specification says of deduplication: of the elements that share a key the
  first one is kept, and the order is otherwise kept.  \<open>firstOccurrences\<close> is written
  from these words, for the comparison with dedupeCode and dedupeRepo.
\<close>

definition firstOccurrences :: "('a \<Rightarrow> 'k) \<Rightarrow> 'a list \<Rightarrow> 'a list" where
  "firstOccurrences key xs =
     map (\<lambda>i. xs ! i)
       (filter (\<lambda>i. \<forall>j \<in> set [0..<i]. key (xs ! j) \<noteq> key (xs ! i)) [0..<length xs])"


section \<open>Scenarios\<close>

text \<open>
  A small world for concrete runs.  Instants are midnights, counted in days from
  0001-01-01: day 738885 is 2024-01-01 and the run starts on 2024-01-08 with a window
  of seven days.  The code search for \<^verbatim>\<open>polygon\<close> finds one file, the one for
  \<^verbatim>\<open>alpaca\<close> finds the same file and two more; the commits request of job 0, 1, 2
  answers with a commit of 2024-01-03, 2024-01-05, 2024-01-04, and every later one
  fails.  The repository search finds a repository pushed on 2023-12-31 and one pushed
  on 2024-01-05.  Every other request is answered by a page without items.
\<close>


definition midnight :: "int \<Rightarrow> time" where
  "midnight d = d * 24 * Hour"

definition ok200 :: "string \<Rightarrow> response" where
  "ok200 b = \<lparr>StatusCode = 200, Header = (\<lambda>k. if k = ''X-RateLimit-Resource'' then ''search'' else []), Body = b\<rparr>"

definition itemA :: codeItem where
  "itemA = \<lparr>ciName = ''feed.py'', ciPath = ''src/feed.py'', ciSHA = ''a1'',
     ciHTMLURL = ''https://github.com/acme/ticks/blob/a1/src/feed.py'',
     ciRepository = \<lparr>crFullName = ''acme/ticks'', crHTMLURL = ''https://github.com/acme/ticks'',
       crLanguage = ''Python''\<rparr>\<rparr>"

definition itemB :: codeItem where
  "itemB = \<lparr>ciName = ''rest.py'', ciPath = ''rest.py'', ciSHA = ''b1'',
     ciHTMLURL = ''https://github.com/bolt/quotes/blob/b1/rest.py'',
     ciRepository = \<lparr>crFullName = ''bolt/quotes'', crHTMLURL = ''https://github.com/bolt/quotes'',
       crLanguage = ''Python''\<rparr>\<rparr>"

definition itemC :: codeItem where
  "itemC = \<lparr>ciName = ''old.py'', ciPath = ''old.py'', ciSHA = ''c1'',
     ciHTMLURL = ''https://github.com/cold/archive/blob/c1/old.py'',
     ciRepository = \<lparr>crFullName = ''cold/archive'', crHTMLURL = ''https://github.com/cold/archive'',
       crLanguage = ''Python''\<rparr>\<rparr>"

definition repoOld :: repoItem where
  "repoOld = \<lparr>riFullName = ''cold/archive'', riHTMLURL = ''https://github.com/cold/archive'',
     riDescription = ''example'', riPushedAt = ''2023-12-31T00:00:00Z'',
     riCreatedAt = ''2023-12-01T00:00:00Z'', riTopics = []\<rparr>"

definition repoFresh :: repoItem where
  "repoFresh = \<lparr>riFullName = ''acme/ticks'', riHTMLURL = ''https://github.com/acme/ticks'',
     riDescription = ''example'', riPushedAt = ''2024-01-05T00:00:00Z'',
     riCreatedAt = ''2023-12-01T00:00:00Z'', riTopics = []\<rparr>"

definition world :: env where
  "world =
     \<lparr>timeNow = midnight 738892,
      generatedNow = ''2024-01-08T00:00:09Z'',
      ctxErr = (\<lambda>t. None),
      clientGet = (\<lambda>t url.
        if url = codeSearchURL ''polygon+language:python'' 50 1 then Inr (ok200 ''A'')
        else if url = codeSearchURL ''alpaca+language:python'' 50 1 then Inr (ok200 ''ABC'')
        else if url = repoSearchURL ''%22example%22+pushed:>=2024-01-01'' 50 1 then Inr (ok200 ''R'')
        else Inr (ok200 ''none'')),
      commitsGet = (\<lambda>i url.
        if i = 0 then Inr (ok200 ''c0'') else if i = 1 then Inr (ok200 ''c1'')
        else if i = 2 then Inr (ok200 ''c2'') else Inl ''context deadline exceeded''),
      jsonCode = (\<lambda>b.
        if b = ''A'' then Inr \<lparr>csTotalCount = 1, csIncompleteResults = False, csItems = [itemA]\<rparr>
        else if b = ''ABC'' then
          Inr \<lparr>csTotalCount = 3, csIncompleteResults = False, csItems = [itemA, itemB, itemC]\<rparr>
        else if b = ''none'' then Inr \<lparr>csTotalCount = 0, csIncompleteResults = False, csItems = []\<rparr>
        else Inl ''unexpected end of JSON input''),
      jsonRepo = (\<lambda>b.
        if b = ''R'' then
          Inr \<lparr>rsTotalCount = 2, rsIncompleteResults = False, rsItems = [repoOld, repoFresh]\<rparr>
        else if b = ''none'' then Inr \<lparr>rsTotalCount = 0, rsIncompleteResults = False, rsItems = []\<rparr>
        else Inl ''unexpected end of JSON input''),
      jsonCommits = (\<lambda>b.
        if b = ''c0'' then [\<lparr>ceSHA = ''s0'', ceAuthorDate = ''2024-01-03T00:00:00Z'', ceHTMLURL = []\<rparr>]
        else if b = ''c1'' then [\<lparr>ceSHA = ''s1'', ceAuthorDate = ''2024-01-05T00:00:00Z'', ceHTMLURL = []\<rparr>]
        else if b = ''c2'' then [\<lparr>ceSHA = ''s2'', ceAuthorDate = ''2024-01-04T00:00:00Z'', ceHTMLURL = []\<rparr>]
        else []),
      timeParse = (\<lambda>d.
        if d = ''2023-12-01T00:00:00Z'' then midnight 738854
        else if d = ''2023-12-31T00:00:00Z'' then midnight 738884
        else if d = ''2024-01-03T00:00:00Z'' then midnight 738887
        else if d = ''2024-01-04T00:00:00Z'' then midnight 738888
        else if d = ''2024-01-05T00:00:00Z'' then midnight 738889
        else 0),
      formatRFC3339 = (\<lambda>t. if t = midnight 738885 then ''2024-01-01T00:00:00Z'' else []),
      formatDate = (\<lambda>t. if t = midnight 738885 then ''2024-01-01'' else [])\<rparr>"

definition settings :: AppSettings where
  "settings = \<lparr>DaysBack = 7, OpenAIModel = ''gpt-5'', MaxPages = 2, PerPage = 50,
     UseCommitCheck = True, IncludeRepoSearch = True, QueriesFile = ''queries.yaml''\<rparr>"

definition codeQuery :: "string \<Rightarrow> string \<Rightarrow> SearchQuery" where
  "codeQuery name q = \<lparr>sqName = name, sqType = ''code'', sqQuery = q, sqEnabled = True\<rparr>"

definition repoQuery :: "string \<Rightarrow> string \<Rightarrow> SearchQuery" where
  "repoQuery name q = \<lparr>sqName = name, sqType = ''repo'', sqQuery = q, sqEnabled = True\<rparr>"

definition feeds :: SearchGroup where
  "feeds = \<lparr>sgName = ''Feeds'', sgEnabled = True, Searches =
     [codeQuery ''first'' ''polygon language:python'',
      codeQuery ''second'' ''alpaca  language:python fork:true'']\<rparr>"

definition twoCodeQueries :: QueriesSpec where
  "twoCodeQueries = \<lparr>Groups = [feeds]\<rparr>"

definition repoGroup :: SearchGroup where
  "repoGroup = \<lparr>sgName = ''Feeds'', sgEnabled = True, Searches =
     [repoQuery ''repos'' ''\"example\"'']\<rparr>"

definition oneRepoQuery :: QueriesSpec where
  "oneRepoQuery = \<lparr>Groups = [repoGroup]\<rparr>"

definition freshHit :: RepoHit where
  "freshHit = repoHitOf world repoGroup (repoQuery ''repos'' ''\"example\"'') repoFresh"

text \<open>
  Cancellation in the middle of a pagination: one code query under a cap of three
  pages, and a context that is done from the second request on.
\<close>

definition polygonGroup :: SearchGroup where
  "polygonGroup = \<lparr>sgName = ''Feeds'', sgEnabled = True, Searches =
     [codeQuery ''first'' ''polygon language:python'']\<rparr>"

definition onePolygonQuery :: QueriesSpec where
  "onePolygonQuery = \<lparr>Groups = [polygonGroup]\<rparr>"


text \<open>
  A code search that the server rejects with status 422 on its first page.  In
  \<open>retryWorld\<close> the strictly encoded retry is answered with one item and every
  commits request fails; in \<open>retryRejectedWorld\<close> the retry is rejected as well; in
  \<open>retryLostWorld\<close> the retry fails as a request.
\<close>

definition polygonQuery :: SearchQuery where
  "polygonQuery = codeQuery ''first'' ''polygon language:python''"

definition lenientPolygon :: string where
  "lenientPolygon = codeSearchURL ''polygon+language:python'' 50 1"

definition strictPolygon :: string where
  "strictPolygon = codeSearchURL ''polygon+language%3Apython'' 50 1"

definition resp422 :: response where
  "resp422 =
     \<lparr>StatusCode = 422,
      Header = (\<lambda>k. if k = ''X-RateLimit-Resource'' then ''search''
                     else if k = ''X-RateLimit-Remaining'' then ''9''
                     else if k = ''X-RateLimit-Reset'' then ''1704672060'' else []),
      Body = ''Validation Failed''\<rparr>"

definition retryWorld :: env where
  "retryWorld = world
     \<lparr>clientGet := (\<lambda>t url.
        if url = lenientPolygon then Inr resp422
        else if url = strictPolygon then Inr (ok200 ''A'')
        else clientGet world t url),
      commitsGet := (\<lambda>i url. Inl ''context deadline exceeded'')\<rparr>"

definition retryRejectedWorld :: env where
  "retryRejectedWorld = world
     \<lparr>clientGet := (\<lambda>t url.
        if url = lenientPolygon then Inr resp422
        else if url = strictPolygon then Inr (resp422\<lparr>Body := ''Validation Failed again''\<rparr>)
        else clientGet world t url)\<rparr>"

definition retryLostWorld :: env where
  "retryLostWorld = world
     \<lparr>clientGet := (\<lambda>t url.
        if url = lenientPolygon then Inr resp422
        else if url = strictPolygon then Inl ''connection reset by peer''
        else clientGet world t url)\<rparr>"


definition hitFirstA :: CodeHit where
  "hitFirstA = codeHitOf feeds (codeQuery ''first'' ''polygon language:python'') itemA"

definition hitSecondA :: CodeHit where
  "hitSecondA = codeHitOf feeds (codeQuery ''second'' ''alpaca  language:python fork:true'') itemA"

definition hitSecondB :: CodeHit where
  "hitSecondB = codeHitOf feeds (codeQuery ''second'' ''alpaca  language:python fork:true'') itemB"

definition hitSecondC :: CodeHit where
  "hitSecondC = codeHitOf feeds (codeQuery ''second'' ''alpaca  language:python fork:true'') itemC"

definition findingsOf :: "CodeHit list \<Rightarrow> RepoHit list \<Rightarrow> string list \<Rightarrow> Findings" where
  "findingsOf cs rs ns =
     \<lparr>RunID = [], SinceISO = ''2024-01-01T00:00:00Z'', fDaysBack = 7,
      Generated = ''2024-01-08T00:00:09Z'', CodeHits = cs, RepoHits = rs, Notes = ns\<rparr>"

text \<open>
  Responses for the Rate Governor, read at 2024-01-08T00:00:00Z: a response of the
  search resource with no quota left and a reset thirty seconds ahead, the same with a
  \<^verbatim>\<open>Retry-After\<close> of five seconds, and one with a \<^verbatim>\<open>Retry-After\<close> beyond the range
  of a duration.
\<close>

definition headers :: "(string \<times> string) list \<Rightarrow> string \<Rightarrow> string" where
  "headers kvs k = (case map_of kvs k of None \<Rightarrow> [] | Some v \<Rightarrow> v)"

definition limited :: response where
  "limited = \<lparr>StatusCode = 403,
     Header = headers [(''X-RateLimit-Resource'', ''search''), (''X-RateLimit-Remaining'', ''0''),
                       (''X-RateLimit-Reset'', ''1704672030'')],
     Body = []\<rparr>"

definition limitedRetryAfter :: response where
  "limitedRetryAfter = \<lparr>StatusCode = 403,
     Header = headers [(''X-RateLimit-Resource'', ''search''), (''X-RateLimit-Remaining'', ''0''),
                       (''X-RateLimit-Reset'', ''1704672030''), (''Retry-After'', ''5'')],
     Body = []\<rparr>"

definition retryAfterHuge :: response where
  "retryAfterHuge = \<lparr>StatusCode = 403,
     Header = headers [(''Retry-After'', ''9223372037'')],
     Body = []\<rparr>"


definition noon :: time where
  "noon = Unix 1704672000"


text \<open>
  Three hits for the pool of two workers, and a schedule in which the second job is
  answered first and the first job last.
\<close>

definition threeHits :: "CodeHit list" where
  "threeHits = [hitFirstA, hitSecondA, hitSecondB]"

definition outOfOrder :: "poolEvent list" where
  "outOfOrder = [Take, Take, Deliver 1, Take, Deliver 2, Deliver 0]"

definition threeEnriched :: pool where
  "threeEnriched = \<lparr>nextJob = 3, busy = [],
     out = [hitFirstA\<lparr>CommitDate := midnight 738887\<rparr>,
            hitSecondA\<lparr>CommitDate := midnight 738889\<rparr>,
            hitSecondB\<lparr>CommitDate := midnight 738888\<rparr>]\<rparr>"


text \<open>
  Two queries for the sanitizer: one with the operators of the code search between
  runs of white space, and one with a fork qualifier, followed by the no-break space
  U+00A0.
\<close>

definition operatorQuery :: string where
  "operatorQuery = ''  (polygon.io OR  alpaca) language:python  stars:>=5 topic:a,b ''"

definition forkedQuery :: string where
  "forkedQuery = ''Fork : Only'' @ [CHR 0xC2, CHR 0xA0] @ ''language:go (a OR b)''"

section \<open>Lemmas on the Aggregator\<close>


lemma set_insertLeft: "set (insertLeft stop ys x) = insert x (set ys)"
  by (induction ys) auto

lemma mset_insertLeft: "mset (insertLeft stop ys x) = add_mset x (mset ys)"
  by (induction ys) auto

lemma mset_moveLeft: "mset (moveLeft lt pre x) = add_mset x (mset pre)"
  by (simp add: moveLeft_def mset_insertLeft)

lemma mset_foldl_moveLeft: "mset (foldl (moveLeft lt) acc xs) = mset acc + mset xs"
  by (induction xs arbitrary: acc) (simp_all add: mset_moveLeft)

lemma mset_sortSlice: "mset (sortSlice lt xs) = mset xs"
  by (simp add: sortSlice_def mset_foldl_moveLeft)

lemma set_sortSlice: "set (sortSlice lt xs) = set xs"
  using mset_sortSlice [of lt xs] by (metis set_mset_mset)

lemma length_sortSlice: "length (sortSlice lt xs) = length xs"
  using mset_sortSlice [of lt xs] by (metis size_mset)

lemma insertLeft_ordered:
  assumes asym: "\<And>a b. lt a b \<Longrightarrow> \<not> lt b a"
    and ntrans: "\<And>a b c. \<not> lt b a \<Longrightarrow> \<not> lt c b \<Longrightarrow> \<not> lt c a"
    and "sorted_wrt (\<lambda>a b. \<not> lt a b) ys"
  shows "sorted_wrt (\<lambda>a b. \<not> lt a b) (insertLeft (\<lambda>a b. \<not> lt a b) ys x)"
  using assms(3)
proof (induction ys)
  case Nil
  then show ?case by simp
next
  case (Cons y ys)
  show ?case
  proof (cases "lt x y")
    case True
    then have "\<not> lt y x" by (rule asym)
    with Cons True show ?thesis
      by (auto simp: set_insertLeft)
  next
    case False
    have "\<not> lt x z" if "z \<in> set ys" for z
    proof -
      from Cons.prems that have "\<not> lt y z" by simp
      from ntrans [OF this False] show ?thesis .
    qed
    with Cons.prems False show ?thesis
      by auto
  qed
qed

lemma moveLeft_ordered:
  assumes asym: "\<And>a b. lt a b \<Longrightarrow> \<not> lt b a"
    and ntrans: "\<And>a b c. \<not> lt b a \<Longrightarrow> \<not> lt c b \<Longrightarrow> \<not> lt c a"
    and "sorted_wrt (\<lambda>a b. \<not> lt b a) pre"
  shows "sorted_wrt (\<lambda>a b. \<not> lt b a) (moveLeft lt pre x)"
proof -
  from assms(3) have "sorted_wrt (\<lambda>a b. \<not> lt a b) (rev pre)"
    by (simp add: sorted_wrt_rev)
  from insertLeft_ordered [of lt, OF asym ntrans this]
  show ?thesis
    by (simp add: moveLeft_def sorted_wrt_rev)
qed

lemma foldl_moveLeft_ordered:
  assumes asym: "\<And>a b. lt a b \<Longrightarrow> \<not> lt b a"
    and ntrans: "\<And>a b c. \<not> lt b a \<Longrightarrow> \<not> lt c b \<Longrightarrow> \<not> lt c a"
    and "sorted_wrt (\<lambda>a b. \<not> lt b a) acc"
  shows "sorted_wrt (\<lambda>a b. \<not> lt b a) (foldl (moveLeft lt) acc xs)"
  using assms(3)
proof (induction xs arbitrary: acc)
  case Nil
  then show ?case by simp
next
  case (Cons x xs)
  from moveLeft_ordered [of lt, OF asym ntrans Cons.prems]
  show ?case by (simp add: Cons.IH)
qed

lemma sortSlice_ordered:
  assumes asym: "\<And>a b. lt a b \<Longrightarrow> \<not> lt b a"
    and ntrans: "\<And>a b c. \<not> lt b a \<Longrightarrow> \<not> lt c b \<Longrightarrow> \<not> lt c a"
  shows "sorted_wrt (\<lambda>a b. \<not> lt b a) (sortSlice lt xs)"
proof -
  have "sorted_wrt (\<lambda>a b. \<not> lt b a) []"
    by simp
  from foldl_moveLeft_ordered [of lt, OF asym ntrans this]
  show ?thesis
    by (simp add: sortSlice_def)
qed

lemma codeLess_asym: "codeLess a b \<Longrightarrow> \<not> codeLess b a"
  by (auto simp: codeLess_def IsZero_def After_def Let_def split: if_splits)

lemma codeLess_ntrans: "\<not> codeLess b a \<Longrightarrow> \<not> codeLess c b \<Longrightarrow> \<not> codeLess c a"
  by (auto simp: codeLess_def IsZero_def After_def Let_def split: if_splits)

lemma sortSlice_codeLess: "sorted_wrt (\<lambda>a b. \<not> codeLess b a) (sortSlice codeLess hs)"
  by (rule sortSlice_ordered [of codeLess, OF codeLess_asym codeLess_ntrans])

lemma repoLess_asym: "repoLess a b \<Longrightarrow> \<not> repoLess b a"
  by (auto simp: repoLess_def After_def)

lemma repoLess_ntrans: "\<not> repoLess b a \<Longrightarrow> \<not> repoLess c b \<Longrightarrow> \<not> repoLess c a"
  by (auto simp: repoLess_def After_def)

lemma sortSlice_repoLess: "sorted_wrt (\<lambda>a b. \<not> repoLess b a) (sortSlice repoLess hs)"
  by (rule sortSlice_ordered [of repoLess, OF repoLess_asym repoLess_ntrans])


lemma dedupeCodeFrom_subseq: "subseq (dedupeCodeFrom seen hs) hs"
  by (induction hs arbitrary: seen) auto

lemma dedupeCodeFrom_keys:
  "set (map codeKey (dedupeCodeFrom seen hs)) = set (map codeKey hs) - seen"
  by (induction hs arbitrary: seen) auto

lemma dedupeCodeFrom_unseen: "h \<in> set (dedupeCodeFrom seen hs) \<Longrightarrow> codeKey h \<notin> seen"
  by (induction hs arbitrary: seen) (auto split: if_splits)

lemma dedupeCodeFrom_distinct: "distinct (map codeKey (dedupeCodeFrom seen hs))"
  by (induction hs arbitrary: seen) (auto dest: dedupeCodeFrom_unseen)

lemma firstOccurrences_Nil: "firstOccurrences key [] = []"
  by (simp add: firstOccurrences_def)

lemma firstOccurrences_snoc:
  "firstOccurrences key (xs @ [x]) =
     firstOccurrences key xs @ (if key x \<in> key ` set xs then [] else [x])"
proof -
  let ?P = "\<lambda>ys i. \<forall>j \<in> set [0..<i]. key (ys ! j) \<noteq> key (ys ! i)"
  have old: "filter (?P (xs @ [x])) [0..<length xs] = filter (?P xs) [0..<length xs]"
    by (rule filter_cong) (auto simp: nth_append)
  have "map (\<lambda>i. (xs @ [x]) ! i) (filter (?P xs) [0..<length xs])
      = map (\<lambda>i. xs ! i) (filter (?P xs) [0..<length xs])"
    by (rule map_cong) (auto simp: nth_append)
  moreover have "?P (xs @ [x]) (length xs) \<longleftrightarrow> key x \<notin> key ` set xs"
  proof -
    have "?P (xs @ [x]) (length xs) \<longleftrightarrow> (\<forall>j<length xs. key (xs ! j) \<noteq> key x)"
      by (auto simp: nth_append)
    also have "\<dots> \<longleftrightarrow> (\<forall>y \<in> set xs. key y \<noteq> key x)"
      by (metis in_set_conv_nth)
    also have "\<dots> \<longleftrightarrow> key x \<notin> key ` set xs"
      by (metis image_iff)
    finally show ?thesis .
  qed
  ultimately show ?thesis
    unfolding firstOccurrences_def using old by (simp add: nth_append)
qed

lemma dedupeCodeFrom_append:
  "dedupeCodeFrom seen (xs @ ys) =
     dedupeCodeFrom seen xs @ dedupeCodeFrom (seen \<union> codeKey ` set xs) ys"
  by (induction xs arbitrary: seen) (simp_all add: insert_absorb)

lemma dedupeCodeFrom_single:
  "dedupeCodeFrom seen [x] = (if codeKey x \<in> seen then [] else [x])"
  by simp

lemma dedupeCode_firstOccurrences: "dedupeCode xs = firstOccurrences codeKey xs"
proof (induction xs rule: rev_induct)
  case Nil
  show ?case by (simp add: dedupeCode_def firstOccurrences_Nil)
next
  case (snoc x xs)
  then show ?case
    by (simp add: dedupeCode_def dedupeCodeFrom_append firstOccurrences_snoc)
qed

lemma dedupeRepoFrom_append:
  "dedupeRepoFrom seen (xs @ ys) =
     dedupeRepoFrom seen xs @ dedupeRepoFrom (seen \<union> FullName ` set xs) ys"
  by (induction xs arbitrary: seen) (simp_all add: insert_absorb)

lemma dedupeRepo_firstOccurrences: "dedupeRepo xs = firstOccurrences FullName xs"
proof (induction xs rule: rev_induct)
  case Nil
  show ?case by (simp add: dedupeRepo_def firstOccurrences_Nil)
next
  case (snoc x xs)
  then show ?case
    by (simp add: dedupeRepo_def dedupeRepoFrom_append firstOccurrences_snoc)
qed

lemma dedupeRepoFrom_subseq: "subseq (dedupeRepoFrom seen hs) hs"
  by (induction hs arbitrary: seen) auto

lemma dedupeRepoFrom_keys:
  "set (map FullName (dedupeRepoFrom seen hs)) = set (map FullName hs) - seen"
  by (induction hs arbitrary: seen) auto

lemma dedupeRepoFrom_unseen: "h \<in> set (dedupeRepoFrom seen hs) \<Longrightarrow> FullName h \<notin> seen"
  by (induction hs arbitrary: seen) (auto split: if_splits)

lemma dedupeRepoFrom_distinct: "distinct (map FullName (dedupeRepoFrom seen hs))"
  by (induction hs arbitrary: seen) (auto dest: dedupeRepoFrom_unseen)


lemma sortCodeHits_ordered: "sorted_wrt (\<lambda>a b. \<not> codeLess b a) (sortCodeHits hs)"
proof (cases "length hs > 1")
  case True
  then show ?thesis by (simp add: sortCodeHits_def sortSlice_codeLess)
next
  case False
  then have "hs = [] \<or> (\<exists>x. hs = [x])"
    by (cases hs) auto
  then show ?thesis by (auto simp: sortCodeHits_def)
qed

lemma runSearches_cases:
  assumes "runSearches E cfg spec = (f, r)"
  shows "(\<exists>err. searchPhase E cfg spec = Inl err \<and> r = Some err \<and> f = zeroFindings) \<or>
    (\<exists>s. searchPhase E cfg spec = Inr s \<and> r = None \<and>
       CodeHits f = dedupeCode (sortCodeHits (commitCheck E cfg (windowStart E cfg) (codeHits s))) \<and>
       RepoHits f = dedupeRepo (sortRepoHits (repoHits s)) \<and> Notes f = runNotes s)"
  using assms
  by (auto simp: runSearches_def searchPhase_def windowStart_def Let_def split: sum.splits)

lemma set_dedupeCodeFrom: "set (dedupeCodeFrom seen hs) \<subseteq> set hs"
  by (induction hs arbitrary: seen) auto

lemma set_dedupeRepoFrom: "set (dedupeRepoFrom seen hs) \<subseteq> set hs"
  by (induction hs arbitrary: seen) auto

lemma dedupeCodeFrom_ordered:
  "sorted_wrt R hs \<Longrightarrow> sorted_wrt R (dedupeCodeFrom seen hs)"
proof (induction hs arbitrary: seen)
  case Nil
  then show ?case by simp
next
  case (Cons h hs)
  then show ?case
    using set_dedupeCodeFrom by (fastforce simp: subset_iff)
qed

lemma set_sortCodeHits: "set (sortCodeHits hs) = set hs"
  by (simp add: sortCodeHits_def set_sortSlice)

lemma set_sortRepoHits: "set (sortRepoHits hs) = set hs"
  by (simp add: sortRepoHits_def set_sortSlice)

lemma mset_sortCodeHits: "mset (sortCodeHits hs) = mset hs"
  by (simp add: sortCodeHits_def mset_sortSlice)

lemma mset_sortRepoHits: "mset (sortRepoHits hs) = mset hs"
  by (simp add: sortRepoHits_def mset_sortSlice)

lemma CodeHits_ordered:
  assumes "runSearches E cfg spec = (f, r)"
  shows "sorted_wrt (\<lambda>a b. \<not> codeLess b a) (CodeHits f)"
proof -
  have "sorted_wrt (\<lambda>a b. \<not> codeLess b a) (dedupeCode (sortCodeHits hs))" for hs
    unfolding dedupeCode_def by (rule dedupeCodeFrom_ordered) (rule sortCodeHits_ordered)
  with runSearches_cases [OF assms] show ?thesis
    by (auto simp: zeroFindings_def)
qed

lemma codeKey_triple:
  "(Repository a, FilePath a, FileURL a) = (Repository b, FilePath b, FileURL b) \<Longrightarrow> codeKey a = codeKey b"
  by (simp add: codeKey_def)

lemma distinct_triples:
  assumes "distinct (map codeKey hs)"
  shows "distinct (map (\<lambda>h. (Repository h, FilePath h, FileURL h)) hs)"
proof -
  from assms have d: "distinct hs" and i: "inj_on codeKey (set hs)"
    by (simp_all add: distinct_map)
  have "inj_on (\<lambda>h. (Repository h, FilePath h, FileURL h)) (set hs)"
  proof (rule inj_onI)
    fix a b
    assume "a \<in> set hs" "b \<in> set hs"
      and "(Repository a, FilePath a, FileURL a) = (Repository b, FilePath b, FileURL b)"
    then show "a = b"
      using i codeKey_triple [of a b] by (auto dest: inj_onD)
  qed
  with d show ?thesis by (simp add: distinct_map)
qed

lemma sortRepoHits_ordered: "sorted_wrt (\<lambda>a b. \<not> repoLess b a) (sortRepoHits hs)"
proof (cases "length hs > 1")
  case True
  then show ?thesis by (simp add: sortRepoHits_def sortSlice_repoLess)
next
  case False
  then have "hs = [] \<or> (\<exists>x. hs = [x])"
    by (cases hs) auto
  then show ?thesis by (auto simp: sortRepoHits_def)
qed


lemma in_dedupeCode: "h \<in> set (dedupeCode hs) \<Longrightarrow> h \<in> set hs"
  using set_dedupeCodeFrom [of "{}" hs] by (auto simp: dedupeCode_def)

lemma in_dedupeRepo: "h \<in> set (dedupeRepo hs) \<Longrightarrow> h \<in> set hs"
  using set_dedupeRepoFrom [of "{}" hs] by (auto simp: dedupeRepo_def)

lemma set_enrichWithCommitDates:
  "h \<in> set (enrichWithCommitDates E since hits) \<longleftrightarrow>
     (\<exists>i<length hits. h = (hits ! i)\<lparr>CommitDate := workerResult E since i (hits ! i)\<rparr>)"
  by (auto simp: enrichWithCommitDates_def in_set_enumerate_eq image_iff Bex_def)

lemma set_commitCheck:
  assumes "UseCommitCheck cfg" and "h \<in> set (commitCheck E cfg since hits)"
  shows "\<exists>i<length hits. h = (hits ! i)\<lparr>CommitDate := workerResult E since i (hits ! i)\<rparr>
           \<and> \<not> IsZero (workerResult E since i (hits ! i))
           \<and> \<not> Before (workerResult E since i (hits ! i)) since"
proof (cases "length hits > 0")
  case True
  with assms have "h \<in> set (enrichWithCommitDates E since hits)"
    and ok: "\<not> IsZero (CommitDate h)" "\<not> Before (CommitDate h) since"
    by (simp_all add: commitCheck_def)
  then obtain i where "i < length hits"
    and "h = (hits ! i)\<lparr>CommitDate := workerResult E since i (hits ! i)\<rparr>"
    by (auto simp: set_enrichWithCommitDates)
  with ok show ?thesis by auto
next
  case False
  with assms show ?thesis by (simp add: commitCheck_def)
qed

lemma workerResult_failed:
  "commitsGet E i (commitsURL E since h) = Inl err \<Longrightarrow> IsZero (workerResult E since i h)"
  by (simp add: workerResult_def IsZero_def)


section \<open>Lemmas on the loops\<close>

declare codeLoop.simps [simp del] repoLoop.simps [simp del]

lemma codeLoop_rel:
  assumes refl: "\<And>s. R s s"
    and trans: "\<And>a b c. R a b \<Longrightarrow> R b c \<Longrightarrow> R a c"
    and brk: "\<And>page found s f1 s1. codePage E pp g q page found s = Break f1 s1 \<Longrightarrow> R s s1"
    and cont: "\<And>page found s p1 f1 s1. codePage E pp g q page found s = Continue p1 f1 s1 \<Longrightarrow> R s s1"
    and res: "codeLoop E pp mp g q page found s = Inr (f', s')"
  shows "R s s'"
  using res
proof (induction "nat (mp + 1 - page)" arbitrary: page found s rule: less_induct)
  case less
  show ?case
  proof (cases "page \<le> mp")
    case False
    with less.prems show ?thesis
      by (simp add: codeLoop.simps refl)
  next
    case True
    show ?thesis
    proof (cases "codePage E pp g q page found s")
      case (Return e)
      with True less.prems show ?thesis
        by (simp add: codeLoop.simps)
    next
      case (Break f1 s1)
      with True less.prems have "s' = s1"
        by (simp add: codeLoop.simps)
      with brk [OF Break] show ?thesis
        by simp
    next
      case (Continue p1 f1 s1)
      with True less.prems have r: "codeLoop E pp mp g q p1 f1 s1 = Inr (f', s')"
        by (simp add: codeLoop.simps)
      from codePage_Continue [OF Continue] True
      have "nat (mp + 1 - p1) < nat (mp + 1 - page)"
        by simp
      from less.hyps [OF this r] have "R s1 s'" .
      with cont [OF Continue] show ?thesis
        by (rule trans)
    qed
  qed
qed

lemma repoLoop_rel:
  assumes refl: "\<And>s. R s s"
    and trans: "\<And>a b c. R a b \<Longrightarrow> R b c \<Longrightarrow> R a c"
    and brk: "\<And>page found s f1 s1.
      repoPage E since pp g q baseQ page found s = Break f1 s1 \<Longrightarrow> R s s1"
    and cont: "\<And>page found s p1 f1 s1.
      repoPage E since pp g q baseQ page found s = Continue p1 f1 s1 \<Longrightarrow> R s s1"
    and res: "repoLoop E since pp mp g q baseQ page found s = Inr (f', s')"
  shows "R s s'"
  using res
proof (induction "nat (mp + 1 - page)" arbitrary: page found s rule: less_induct)
  case less
  show ?case
  proof (cases "page \<le> mp")
    case False
    with less.prems show ?thesis
      by (simp add: repoLoop.simps refl)
  next
    case True
    show ?thesis
    proof (cases "repoPage E since pp g q baseQ page found s")
      case (Return e)
      with True less.prems show ?thesis
        by (simp add: repoLoop.simps)
    next
      case (Break f1 s1)
      with True less.prems have "s' = s1"
        by (simp add: repoLoop.simps)
      with brk [OF Break] show ?thesis
        by simp
    next
      case (Continue p1 f1 s1)
      with True less.prems have r: "repoLoop E since pp mp g q baseQ p1 f1 s1 = Inr (f', s')"
        by (simp add: repoLoop.simps)
      from repoPage_Continue [OF Continue] True
      have "nat (mp + 1 - p1) < nat (mp + 1 - page)"
        by simp
      from less.hyps [OF this r] have "R s1 s'" .
      with cont [OF Continue] show ?thesis
        by (rule trans)
    qed
  qed
qed

lemma runQuery_rel:
  assumes refl: "\<And>s. R s s"
    and trans: "\<And>a b c. R a b \<Longrightarrow> R b c \<Longrightarrow> R a c"
    and cbrk: "\<And>page found s f1 s1.
      codePage E (PerPage cfg) g q page found s = Break f1 s1 \<Longrightarrow> R s s1"
    and ccont: "\<And>page found s p1 f1 s1.
      codePage E (PerPage cfg) g q page found s = Continue p1 f1 s1 \<Longrightarrow> R s s1"
    and rbrk: "\<And>baseQ page found s f1 s1.
      repoPage E since (PerPage cfg) g q baseQ page found s = Break f1 s1 \<Longrightarrow> R s s1"
    and rcont: "\<And>baseQ page found s p1 f1 s1.
      repoPage E since (PerPage cfg) g q baseQ page found s = Continue p1 f1 s1 \<Longrightarrow> R s s1"
    and appended: "\<And>s n. R s (s\<lparr>runNotes := runNotes s @ [n]\<rparr>)"
    and res: "runQuery E cfg since g q s = Inr s'"
  shows "R s s'"
proof (cases "sqEnabled q")
  case False
  with res have "s' = s"
    by (simp add: runQuery_def)
  then show ?thesis by (simp add: refl)
next
  case True
  show ?thesis
  proof (cases "ToLower (sqType q) = ''code''")
    case code: True
    from res True code obtain f1 s1 where
      l: "codeLoop E (PerPage cfg) (MaxPages cfg) g q 1 0 s = Inr (f1, s1)" and
      e: "s' = (if f1 = 0
                then s1\<lparr>runNotes := runNotes s1 @ [''No code hits returned for '' @ qNameOf g q]\<rparr>
                else s1)"
      by (auto simp: runQuery_def split: sum.splits)
    from codeLoop_rel [of R, OF refl trans cbrk ccont l] have "R s s1" .
    moreover from e have "R s1 s'"
      using refl appended by (cases "f1 = 0") simp_all
    ultimately show ?thesis by (rule trans)
  next
    case nocode: False
    show ?thesis
    proof (cases "ToLower (sqType q) = ''repo''")
      case repo: True
      show ?thesis
      proof (cases "IncludeRepoSearch cfg")
        case False
        with res True nocode repo have "s' = s"
          by (simp add: runQuery_def)
        then show ?thesis by (simp add: refl)
      next
        case incl: True
        from res True nocode repo incl obtain f1 s1 where
          l: "repoLoop E since (PerPage cfg) (MaxPages cfg) g q
                (sqQuery q @ '' pushed:>='' @ formatDate E since) 1 0 s = Inr (f1, s1)" and
          e: "s' = (if f1 = 0
                    then s1\<lparr>runNotes := runNotes s1 @ [''No repo hits for '' @ qNameOf g q]\<rparr>
                    else s1)"
          by (auto simp: runQuery_def Let_def split: sum.splits)
        from repoLoop_rel [of R, OF refl trans rbrk rcont l] have "R s s1" .
        moreover from e have "R s1 s'"
          using refl appended by (cases "f1 = 0") simp_all
        ultimately show ?thesis by (rule trans)
      qed
    next
      case False
      with res True nocode
      have "s' = s\<lparr>runNotes := runNotes s @ [''Unknown type for '' @ qNameOf g q @ '': '' @ sqType q]\<rparr>"
        by (simp add: runQuery_def)
      then show ?thesis by (simp add: appended)
    qed
  qed
qed

lemma runQueries_rel:
  assumes refl: "\<And>s. R s s"
    and trans: "\<And>a b c. R a b \<Longrightarrow> R b c \<Longrightarrow> R a c"
    and cbrk: "\<And>q page found s f1 s1.
      codePage E (PerPage cfg) g q page found s = Break f1 s1 \<Longrightarrow> R s s1"
    and ccont: "\<And>q page found s p1 f1 s1.
      codePage E (PerPage cfg) g q page found s = Continue p1 f1 s1 \<Longrightarrow> R s s1"
    and rbrk: "\<And>q baseQ page found s f1 s1.
      repoPage E since (PerPage cfg) g q baseQ page found s = Break f1 s1 \<Longrightarrow> R s s1"
    and rcont: "\<And>q baseQ page found s p1 f1 s1.
      repoPage E since (PerPage cfg) g q baseQ page found s = Continue p1 f1 s1 \<Longrightarrow> R s s1"
    and appended: "\<And>s n. R s (s\<lparr>runNotes := runNotes s @ [n]\<rparr>)"
    and res: "runQueries E cfg since g qs s = Inr s'"
  shows "R s s'"
  using res
proof (induction qs arbitrary: s)
  case Nil
  then show ?case by (simp add: refl)
next
  case (Cons q qs)
  from Cons.prems obtain s1 where
    a: "runQuery E cfg since g q s = Inr s1" and b: "runQueries E cfg since g qs s1 = Inr s'"
    by (auto split: sum.splits)
  from runQuery_rel [of R, OF refl trans cbrk ccont rbrk rcont appended a] have "R s s1" .
  with Cons.IH [OF b] show ?case
    using trans by blast
qed

lemma runGroups_rel:
  assumes refl: "\<And>s. R s s"
    and trans: "\<And>a b c. R a b \<Longrightarrow> R b c \<Longrightarrow> R a c"
    and cbrk: "\<And>g q page found s f1 s1.
      codePage E (PerPage cfg) g q page found s = Break f1 s1 \<Longrightarrow> R s s1"
    and ccont: "\<And>g q page found s p1 f1 s1.
      codePage E (PerPage cfg) g q page found s = Continue p1 f1 s1 \<Longrightarrow> R s s1"
    and rbrk: "\<And>g q baseQ page found s f1 s1.
      repoPage E since (PerPage cfg) g q baseQ page found s = Break f1 s1 \<Longrightarrow> R s s1"
    and rcont: "\<And>g q baseQ page found s p1 f1 s1.
      repoPage E since (PerPage cfg) g q baseQ page found s = Continue p1 f1 s1 \<Longrightarrow> R s s1"
    and appended: "\<And>s n. R s (s\<lparr>runNotes := runNotes s @ [n]\<rparr>)"
    and res: "runGroups E cfg since gs s = Inr s'"
  shows "R s s'"
  using res
proof (induction gs arbitrary: s)
  case Nil
  then show ?case by (simp add: refl)
next
  case (Cons g gs)
  show ?case
  proof (cases "sgEnabled g")
    case False
    with Cons show ?thesis by simp
  next
    case True
    with Cons.prems obtain s1 where
      a: "runQueries E cfg since g (Searches g) s = Inr s1" and
      b: "runGroups E cfg since gs s1 = Inr s'"
      by (auto split: sum.splits)
    from runQueries_rel [of R, OF refl trans cbrk ccont rbrk rcont appended a] have "R s s1" .
    with Cons.IH [OF b] show ?thesis
      using trans by blast
  qed
qed

lemma codePage_Break_fields:
  assumes "codePage E pp g q page found s = Break f1 s1"
  shows "repoHits s1 = repoHits s" and "codeHits s1 = codeHits s" and "f1 = found"
  using assms
  by (auto simp: codePage_def Let_def split: option.splits sum.splits if_splits)

lemma codePage_Continue_fields:
  assumes "codePage E pp g q page found s = Continue p1 f1 s1"
  shows "repoHits s1 = repoHits s" and "runNotes s1 = runNotes s"
    and "\<exists>items. items \<noteq> [] \<and> codeHits s1 = codeHits s @ map (codeHitOf g q) items
           \<and> f1 = found + int (length items)"
  using assms
  by (auto simp: codePage_def Let_def split: option.splits sum.splits if_splits)

lemma repoPage_Break_fields:
  assumes "repoPage E since pp g q baseQ page found s = Break f1 s1"
  shows "repoHits s1 = repoHits s" and "codeHits s1 = codeHits s" and "f1 = found"
  using assms
  by (auto simp: repoPage_def Let_def split: option.splits sum.splits if_splits)

lemma repoPage_Continue_fields:
  assumes "repoPage E since pp g q baseQ page found s = Continue p1 f1 s1"
  shows "codeHits s1 = codeHits s" and "runNotes s1 = runNotes s"
    and "\<exists>items. repoHits s1 = repoHits s
             @ map (repoHitOf E g q) (filter (\<lambda>it. \<not> Before (timeParse E (riPushedAt it)) since) items)
           \<and> f1 = found
             + int (length (filter (\<lambda>it. \<not> Before (timeParse E (riPushedAt it)) since) items))"
  using assms
  by (auto simp: repoPage_def Let_def split: option.splits sum.splits if_splits)

lemma wrap64_id: "- 9223372036854775808 \<le> x \<Longrightarrow> x < 9223372036854775808 \<Longrightarrow> wrap64 x = x"
  by (simp add: wrap64_def)

lemma sinceOf_days:
  assumes "0 \<le> d" and "d \<le> 365"
  shows "sinceOf now d = now - d * 24 * Hour"
proof -
  from assms have a: "wrap64 (- d) = - d"
    by (intro wrap64_id) simp_all
  from assms have b: "wrap64 (- d * 24) = - d * 24"
    by (intro wrap64_id) simp_all
  from assms have c: "wrap64 (- d * 24 * Hour) = - d * 24 * Hour"
    by (intro wrap64_id) (simp_all add: Hour_def)
  have "sinceOf now d = now + wrap64 (wrap64 (wrap64 (- d) * 24) * Hour)"
    by (simp only: sinceOf_def)
  also have "\<dots> = now + (- d * 24 * Hour)"
    by (simp only: a b c)
  finally show ?thesis
    by simp
qed

lemma repoHits_in_window:
  assumes "searchPhase E cfg spec = Inr s" and "h \<in> set (repoHits s)"
  shows "\<exists>g q it. h = repoHitOf E g q it \<and> \<not> Before (timeParse E (riPushedAt it)) (windowStart E cfg)"
proof -
  let ?Q = "\<lambda>h. \<exists>g q it. h = repoHitOf E g q it
      \<and> \<not> Before (timeParse E (riPushedAt it)) (windowStart E cfg)"
  let ?R = "\<lambda>s s'. (\<forall>h \<in> set (repoHits s). ?Q h) \<longrightarrow> (\<forall>h \<in> set (repoHits s'). ?Q h)"
  have "?R initState s"
  proof (rule runGroups_rel [of ?R E cfg "windowStart E cfg" "Groups spec" initState s])
    show "?R s s" for s by simp
    show "?R a b \<Longrightarrow> ?R b c \<Longrightarrow> ?R a c" for a b c by blast
    show "?R s s1" if "codePage E (PerPage cfg) g q page found s = Break f1 s1"
      for g q page found s f1 s1
      using codePage_Break_fields(1) [OF that] by simp
    show "?R s s1" if "codePage E (PerPage cfg) g q page found s = Continue p1 f1 s1"
      for g q page found s p1 f1 s1
      using codePage_Continue_fields(1) [OF that] by simp
    show "?R s s1"
      if "repoPage E (windowStart E cfg) (PerPage cfg) g q baseQ page found s = Break f1 s1"
      for g q baseQ page found s f1 s1
      using repoPage_Break_fields(1) [OF that] by simp
    show "?R s s1"
      if "repoPage E (windowStart E cfg) (PerPage cfg) g q baseQ page found s = Continue p1 f1 s1"
      for g q baseQ page found s p1 f1 s1
    proof -
      from repoPage_Continue_fields(3) [OF that] obtain items where
        "repoHits s1 = repoHits s @ map (repoHitOf E g q)
           (filter (\<lambda>it. \<not> Before (timeParse E (riPushedAt it)) (windowStart E cfg)) items)"
        by blast
      then show ?thesis by auto
    qed
    show "?R s (s\<lparr>runNotes := runNotes s @ [n]\<rparr>)" for s n by simp
    show "runGroups E cfg (windowStart E cfg) (Groups spec) initState = Inr s"
      using assms(1) by (simp add: searchPhase_def)
  qed
  with assms(2) show ?thesis
    by (simp add: initState_def)
qed




















lemma codeHits_grow:
  assumes "codeLoop E pp mp g q page found s = Inr (f', s')"
  shows "prefix (codeHits s) (codeHits s')"
proof (rule codeLoop_rel [of "\<lambda>a b. prefix (codeHits a) (codeHits b)", OF _ _ _ _ assms])
  show "prefix (codeHits s) (codeHits s)" for s :: rstate
    by simp
  show "prefix (codeHits a) (codeHits b) \<Longrightarrow> prefix (codeHits b) (codeHits c)
      \<Longrightarrow> prefix (codeHits a) (codeHits c)" for a b c :: rstate
    by (rule prefix_order.trans)
  show "prefix (codeHits s) (codeHits s1)" if "codePage E pp g q page found s = Break f1 s1"
    for page found s f1 s1
    using codePage_Break_fields(2) [OF that] by simp
  show "prefix (codeHits s) (codeHits s1)" if "codePage E pp g q page found s = Continue p1 f1 s1"
    for page found s p1 f1 s1
    using codePage_Continue_fields(3) [OF that] by auto
qed


section \<open>Lemmas on the worker pool\<close>

lemma poolInv_init: "poolInv E since hits (poolInit hits)"
  by (simp add: poolInv_def poolInit_def)

lemma poolInv_Take:
  assumes inv: "poolInv E since hits p" and lt: "nextJob p < length hits"
  shows "poolInv E since hits (p\<lparr>nextJob := nextJob p + 1, busy := busy p @ [nextJob p]\<rparr>)"
proof -
  from inv have fresh: "nextJob p \<notin> set (busy p)"
    by (auto simp: poolInv_def)
  have "out p ! i = (if i < nextJob p + 1 \<and> i \<notin> set (busy p @ [nextJob p])
               then (hits ! i)\<lparr>CommitDate := workerResult E since i (hits ! i)\<rparr>
               else hits ! i)" if "i < length hits" for i
  proof (cases "i = nextJob p")
    case True
    with inv that fresh show ?thesis
      by (simp add: poolInv_def)
  next
    case False
    with inv that show ?thesis
      by (auto simp: poolInv_def)
  qed
  with inv lt fresh show ?thesis
    by (simp add: poolInv_def less_Suc_eq)
qed


lemma poolInv_Deliver:
  assumes inv: "poolInv E since hits p" and i: "i \<in> set (busy p)"
  shows "poolInv E since hits
    (p\<lparr>busy := remove1 i (busy p),
       out := (out p)[i := (out p ! i)\<lparr>CommitDate := workerResult E since i (hits ! i)\<rparr>]\<rparr>)"
proof -
  from inv have d: "distinct (busy p)" and b: "\<forall>j \<in> set (busy p). j < nextJob p"
    and n: "nextJob p \<le> length hits" and len: "length (out p) = length hits"
    by (simp_all add: poolInv_def)
  from b i n have il: "i < length hits"
    by fastforce
  from inv il i have old: "out p ! i = hits ! i"
    by (simp add: poolInv_def)
  have "(out p)[i := (out p ! i)\<lparr>CommitDate := workerResult E since i (hits ! i)\<rparr>] ! j
      = (if j < nextJob p \<and> j \<notin> set (remove1 i (busy p))
         then (hits ! j)\<lparr>CommitDate := workerResult E since j (hits ! j)\<rparr>
         else hits ! j)" if "j < length hits" for j
  proof (cases "j = i")
    case True
    with il len old d b i show ?thesis
      by simp
  next
    case False
    with inv that d show ?thesis
      by (simp add: poolInv_def)
  qed
  with n d b len show ?thesis
    by (simp add: poolInv_def)
qed

lemma poolInv_step:
  assumes "poolInv E since hits p" and "poolStep E since hits W ev p = Some p'"
  shows "poolInv E since hits p'"
proof (cases ev)
  case Take
  with assms(2) have "p' = p\<lparr>nextJob := nextJob p + 1, busy := busy p @ [nextJob p]\<rparr>"
    and "nextJob p < length hits"
    by (auto simp: poolStep_def split: if_splits)
  with poolInv_Take [OF assms(1)] show ?thesis
    by simp
next
  case (Deliver i)
  with assms(2) have "p' = p\<lparr>busy := remove1 i (busy p),
        out := (out p)[i := (out p ! i)\<lparr>CommitDate := workerResult E since i (hits ! i)\<rparr>]\<rparr>"
    and "i \<in> set (busy p)"
    by (auto simp: poolStep_def split: if_splits)
  with poolInv_Deliver [OF assms(1)] show ?thesis
    by simp
qed

lemma poolInv_run:
  "poolInv E since hits p \<Longrightarrow> poolRun E since hits W evs p = Some p' \<Longrightarrow> poolInv E since hits p'"
proof (induction evs arbitrary: p)
  case Nil
  then show ?case by simp
next
  case (Cons ev evs)
  from Cons.prems(2) obtain p1 where
    a: "poolStep E since hits W ev p = Some p1" and b: "poolRun E since hits W evs p1 = Some p'"
    by (auto split: option.splits)
  from poolInv_step [OF Cons.prems(1) a] b show ?case
    by (rule Cons.IH)
qed

lemma enrichWithCommitDates_nth:
  "i < length hits \<Longrightarrow>
     enrichWithCommitDates E since hits ! i = (hits ! i)\<lparr>CommitDate := workerResult E since i (hits ! i)\<rparr>"
  by (simp add: enrichWithCommitDates_def nth_enumerate_eq)

lemma length_enrichWithCommitDates: "length (enrichWithCommitDates E since hits) = length hits"
  by (simp add: enrichWithCommitDates_def)

lemma poolDone_out:
  assumes "poolInv E since hits p" and "poolDone hits p"
  shows "out p = enrichWithCommitDates E since hits"
proof (rule nth_equalityI)
  from assms(1) show "length (out p) = length (enrichWithCommitDates E since hits)"
    by (simp add: poolInv_def length_enrichWithCommitDates)
next
  fix i
  assume "i < length (out p)"
  with assms(1) have "i < length hits"
    by (simp add: poolInv_def)
  with assms show "out p ! i = enrichWithCommitDates E since hits ! i"
    by (simp add: poolInv_def poolDone_def enrichWithCommitDates_nth)
qed

lemma poolRun_append:
  "poolRun E since hits W (evs1 @ evs2) p =
     (case poolRun E since hits W evs1 p of
        None \<Rightarrow> None
      | Some p' \<Rightarrow> poolRun E since hits W evs2 p')"
  by (induction evs1 arbitrary: p) (auto split: option.splits)


lemma pool_drain:
  assumes "poolInv E since hits p"
  shows "\<exists>evs p'. poolRun E since hits W evs p = Some p' \<and> busy p' = [] \<and> nextJob p' = nextJob p"
  using assms
proof (induction "length (busy p)" arbitrary: p)
  case 0
  then have "poolRun E since hits W [] p = Some p \<and> busy p = [] \<and> nextJob p = nextJob p"
    by simp
  then show ?case by blast
next
  case (Suc n)
  then obtain i rest where b: "busy p = i # rest"
    by (cases "busy p") auto
  let ?p = "p\<lparr>busy := remove1 i (busy p),
       out := (out p)[i := (out p ! i)\<lparr>CommitDate := workerResult E since i (hits ! i)\<rparr>]\<rparr>"
  from Suc.prems b have il: "i < length (out p)"
    by (auto simp: poolInv_def)
  with b have step: "poolStep E since hits W (Deliver i) p = Some ?p"
    by (simp add: poolStep_def)
  from b have inv: "poolInv E since hits ?p"
    using poolInv_Deliver [OF Suc.prems, of i] by simp
  from Suc.hyps(2) b have "n = length (busy ?p)"
    by simp
  from Suc.hyps(1) [OF this inv] obtain evs p' where
    "poolRun E since hits W evs ?p = Some p'" "busy p' = []" "nextJob p' = nextJob ?p"
    by blast
  with step have "poolRun E since hits W (Deliver i # evs) p = Some p' \<and> busy p' = []
      \<and> nextJob p' = nextJob p"
    by simp
  then show ?case by blast
qed

lemma pool_finish:
  assumes "0 < W" and "poolInv E since hits p" and "busy p = []"
  shows "\<exists>evs p'. poolRun E since hits W evs p = Some p' \<and> poolDone hits p'"
  using assms(2,3)
proof (induction "length hits - nextJob p" arbitrary: p)
  case 0
  then have "nextJob p = length hits"
    by (simp add: poolInv_def)
  with 0 have "poolRun E since hits W [] p = Some p \<and> poolDone hits p"
    by (simp add: poolDone_def)
  then show ?case by blast
next
  case (Suc n)
  then have lt: "nextJob p < length hits"
    by simp
  let ?i = "nextJob p"
  let ?p1 = "p\<lparr>nextJob := nextJob p + 1, busy := busy p @ [nextJob p]\<rparr>"
  let ?p2 = "?p1\<lparr>busy := remove1 ?i (busy ?p1),
       out := (out ?p1)[?i := (out ?p1 ! ?i)\<lparr>CommitDate := workerResult E since ?i (hits ! ?i)\<rparr>]\<rparr>"
  from lt Suc.prems assms(1) have s1: "poolStep E since hits W Take p = Some ?p1"
    by (simp add: poolStep_def)
  from poolInv_Take [OF Suc.prems(1) lt] have i1: "poolInv E since hits ?p1" .
  from Suc.prems lt have s2: "poolStep E since hits W (Deliver ?i) ?p1 = Some ?p2"
    by (simp add: poolStep_def poolInv_def)
  have "?i \<in> set (busy ?p1)"
    by simp
  from poolInv_Deliver [OF i1 this] have i2: "poolInv E since hits ?p2" .
  from Suc.prems have b2: "busy ?p2 = []"
    by simp
  from Suc.hyps(2) have "n = length hits - nextJob ?p2"
    by simp
  from Suc.hyps(1) [OF this i2 b2] obtain evs p' where
    "poolRun E since hits W evs ?p2 = Some p'" "poolDone hits p'"
    by blast
  with s1 s2 have "poolRun E since hits W (Take # Deliver ?i # evs) p = Some p' \<and> poolDone hits p'"
    by simp
  then show ?case by blast
qed

lemma pool_completes:
  assumes "0 < W" and "poolInv E since hits p"
  shows "\<exists>evs p'. poolRun E since hits W evs p = Some p' \<and> poolDone hits p'"
proof -
  from pool_drain [OF assms(2)] obtain evs1 p1 where
    a: "poolRun E since hits W evs1 p = Some p1" "busy p1 = []"
    by blast
  from poolInv_run [OF assms(2) a(1)] have "poolInv E since hits p1" .
  from pool_finish [OF assms(1) this a(2)] obtain evs2 p2 where
    b: "poolRun E since hits W evs2 p1 = Some p2" "poolDone hits p2"
    by blast
  from a b have "poolRun E since hits W (evs1 @ evs2) p = Some p2"
    by (simp add: poolRun_append)
  with b(2) show ?thesis by blast
qed


section \<open>Lemmas on the lenient encoding\<close>

lemma token_cases:
  assumes "token t"
  obtains c where "t = [c]" "c \<noteq> CHR ''%''"
  | a b where "t = [CHR ''%'', a, b]" "a \<noteq> CHR ''%''" "b \<noteq> CHR ''%''"
  using assms by (cases t rule: token.cases) auto

lemma ReplaceAll_tokens:
  assumes "\<forall>t \<in> set ts. token t" and "a \<noteq> CHR ''%''" and "b \<noteq> CHR ''%''"
  shows "ReplaceAll (concat ts) [CHR ''%'', a, b] new
    = concat (map (restore [CHR ''%'', a, b] new) ts)"
  using assms(1)
proof (induction ts)
  case Nil
  show ?case by simp
next
  case (Cons t ts)
  then have ih: "ReplaceAll (concat ts) [CHR ''%'', a, b] new
      = concat (map (restore [CHR ''%'', a, b] new) ts)"
    and t: "token t"
    by simp_all
  from t show ?case
  proof (cases rule: token_cases)
    case (1 c)
    then have "restore [CHR ''%'', a, b] new t = t"
      by (simp add: restore_def)
    with 1 ih show ?thesis
      by simp
  next
    case (2 x y)
    show ?thesis
    proof (cases "x = a \<and> y = b")
      case True
      with 2 have "restore [CHR ''%'', a, b] new t = new"
        by (simp add: restore_def)
      with 2 True ih show ?thesis
        by simp
    next
      case False
      with 2 have "restore [CHR ''%'', a, b] new t = t"
        by (auto simp: restore_def)
      with 2 False assms(2,3) ih show ?thesis
        by auto
    qed
  qed
qed

lemma token_restore:
  "token t \<Longrightarrow> r \<noteq> CHR ''%'' \<Longrightarrow> token (restore old [r] t)"
  by (simp add: restore_def)

lemma all_chars: "(\<forall>c \<in> set (Enum.enum :: char list). P c) \<Longrightarrow> P c"
  by (simp add: enum_UNIV)




lemma restoredByte_enum: "list_all restoredByte Enum.enum"
  by code_simp

lemma restoredByte: "restoredByte c"
  using restoredByte_enum by (simp add: list_all_iff enum_UNIV)

lemma token_queryEscByte: "token (queryEscByte c)"
  using restoredByte [of c] by (simp add: restoredByte_def)

lemma restoreAll_queryEscByte: "restoreAll (queryEscByte c) = lenientByte c"
  using restoredByte [of c] by (simp add: restoredByte_def)

lemma tokens_restore:
  "\<forall>t \<in> set ts. token t \<Longrightarrow> r \<noteq> CHR ''%'' \<Longrightarrow> \<forall>t \<in> set (map (restore old [r]) ts). token t"
  by (simp add: token_restore)

lemma urlQueryEscape_tokens:
  "urlQueryEscape q = concat (map restoreAll (map queryEscByte (TrimSpace q)))"
proof -
  define ts where "ts = map queryEscByte (TrimSpace q)"
  have t0: "\<forall>t \<in> set ts. token t"
    by (simp add: ts_def token_queryEscByte)
  define t1 where "t1 = map (restore ''%3A'' '':'') ts"
  define t2 where "t2 = map (restore ''%3a'' '':'') t1"
  define t3 where "t3 = map (restore ''%28'' ''('') t2"
  define t4 where "t4 = map (restore ''%29'' '')'') t3"
  define t5 where "t5 = map (restore ''%3E'' ''>'') t4"
  define t6 where "t6 = map (restore ''%3e'' ''>'') t5"
  define t7 where "t7 = map (restore ''%3C'' ''<'') t6"
  define t8 where "t8 = map (restore ''%3c'' ''<'') t7"
  define t9 where "t9 = map (restore ''%3D'' ''='') t8"
  define t10 where "t10 = map (restore ''%3d'' ''='') t9"
  define t11 where "t11 = map (restore ''%2C'' '','') t10"
  define t12 where "t12 = map (restore ''%2c'' '','') t11"
  define t13 where "t13 = map (restore ''%2F'' ''/'') t12"
  define t14 where "t14 = map (restore ''%2f'' ''/'') t13"
  define t15 where "t15 = map (restore ''%7C'' ''|'') t14"
  define t16 where "t16 = map (restore ''%7c'' ''|'') t15"
  have k1: "\<forall>t \<in> set t1. token t" unfolding t1_def by (rule tokens_restore [OF t0]) simp
  have k2: "\<forall>t \<in> set t2. token t" unfolding t2_def by (rule tokens_restore [OF k1]) simp
  have k3: "\<forall>t \<in> set t3. token t" unfolding t3_def by (rule tokens_restore [OF k2]) simp
  have k4: "\<forall>t \<in> set t4. token t" unfolding t4_def by (rule tokens_restore [OF k3]) simp
  have k5: "\<forall>t \<in> set t5. token t" unfolding t5_def by (rule tokens_restore [OF k4]) simp
  have k6: "\<forall>t \<in> set t6. token t" unfolding t6_def by (rule tokens_restore [OF k5]) simp
  have k7: "\<forall>t \<in> set t7. token t" unfolding t7_def by (rule tokens_restore [OF k6]) simp
  have k8: "\<forall>t \<in> set t8. token t" unfolding t8_def by (rule tokens_restore [OF k7]) simp
  have k9: "\<forall>t \<in> set t9. token t" unfolding t9_def by (rule tokens_restore [OF k8]) simp
  have k10: "\<forall>t \<in> set t10. token t" unfolding t10_def by (rule tokens_restore [OF k9]) simp
  have k11: "\<forall>t \<in> set t11. token t" unfolding t11_def by (rule tokens_restore [OF k10]) simp
  have k12: "\<forall>t \<in> set t12. token t" unfolding t12_def by (rule tokens_restore [OF k11]) simp
  have k13: "\<forall>t \<in> set t13. token t" unfolding t13_def by (rule tokens_restore [OF k12]) simp
  have k14: "\<forall>t \<in> set t14. token t" unfolding t14_def by (rule tokens_restore [OF k13]) simp
  have k15: "\<forall>t \<in> set t15. token t" unfolding t15_def by (rule tokens_restore [OF k14]) simp
  have e1: "ReplaceAll (concat ts) ''%3A'' '':'' = concat t1"
    unfolding t1_def by (rule ReplaceAll_tokens [OF t0]) simp_all
  have e2: "ReplaceAll (concat t1) ''%3a'' '':'' = concat t2"
    unfolding t2_def by (rule ReplaceAll_tokens [OF k1]) simp_all
  have e3: "ReplaceAll (concat t2) ''%28'' ''('' = concat t3"
    unfolding t3_def by (rule ReplaceAll_tokens [OF k2]) simp_all
  have e4: "ReplaceAll (concat t3) ''%29'' '')'' = concat t4"
    unfolding t4_def by (rule ReplaceAll_tokens [OF k3]) simp_all
  have e5: "ReplaceAll (concat t4) ''%3E'' ''>'' = concat t5"
    unfolding t5_def by (rule ReplaceAll_tokens [OF k4]) simp_all
  have e6: "ReplaceAll (concat t5) ''%3e'' ''>'' = concat t6"
    unfolding t6_def by (rule ReplaceAll_tokens [OF k5]) simp_all
  have e7: "ReplaceAll (concat t6) ''%3C'' ''<'' = concat t7"
    unfolding t7_def by (rule ReplaceAll_tokens [OF k6]) simp_all
  have e8: "ReplaceAll (concat t7) ''%3c'' ''<'' = concat t8"
    unfolding t8_def by (rule ReplaceAll_tokens [OF k7]) simp_all
  have e9: "ReplaceAll (concat t8) ''%3D'' ''='' = concat t9"
    unfolding t9_def by (rule ReplaceAll_tokens [OF k8]) simp_all
  have e10: "ReplaceAll (concat t9) ''%3d'' ''='' = concat t10"
    unfolding t10_def by (rule ReplaceAll_tokens [OF k9]) simp_all
  have e11: "ReplaceAll (concat t10) ''%2C'' '','' = concat t11"
    unfolding t11_def by (rule ReplaceAll_tokens [OF k10]) simp_all
  have e12: "ReplaceAll (concat t11) ''%2c'' '','' = concat t12"
    unfolding t12_def by (rule ReplaceAll_tokens [OF k11]) simp_all
  have e13: "ReplaceAll (concat t12) ''%2F'' ''/'' = concat t13"
    unfolding t13_def by (rule ReplaceAll_tokens [OF k12]) simp_all
  have e14: "ReplaceAll (concat t13) ''%2f'' ''/'' = concat t14"
    unfolding t14_def by (rule ReplaceAll_tokens [OF k13]) simp_all
  have e15: "ReplaceAll (concat t14) ''%7C'' ''|'' = concat t15"
    unfolding t15_def by (rule ReplaceAll_tokens [OF k14]) simp_all
  have e16: "ReplaceAll (concat t15) ''%7c'' ''|'' = concat t16"
    unfolding t16_def by (rule ReplaceAll_tokens [OF k15]) simp_all
  have "urlQueryEscape q = concat t16"
    unfolding urlQueryEscape_def Let_def QueryEscape_def
    by (simp only: ts_def [symmetric] e1 e2 e3 e4 e5 e6 e7 e8 e9 e10 e11 e12 e13 e14 e15 e16)
  also have "t16 = map restoreAll ts"
    unfolding t16_def t15_def t14_def t13_def t12_def t11_def t10_def t9_def t8_def t7_def
      t6_def t5_def t4_def t3_def t2_def t1_def
    by (simp add: restoreAll_def [abs_def] comp_def)
  finally show ?thesis
    by (simp add: ts_def)
qed

lemma filter_lenientByte: "filter isOperator (lenientByte c) = (if isOperator c then [c] else [])"
  using restoredByte [of c] by (simp add: restoredByte_def)

lemma filter_concat_lenientByte:
  "filter isOperator (concat (map lenientByte s)) = filter isOperator s"
  by (induction s) (simp_all add: filter_lenientByte)


section \<open>Lemmas on white space and the fork qualifiers\<close>

lemma find_prefix_Some:
  "find P xs = Some w \<Longrightarrow> w \<in> set xs \<and> P w"
  by (induction xs) (auto split: if_splits)

lemma spaceRunes_nonempty: "w \<in> set spaceRunes \<Longrightarrow> w \<noteq> []"
  by (auto simp: spaceRunes_def)

lemma spaceWidth_zero_iff: "spaceWidth s = 0 \<longleftrightarrow> (\<forall>w \<in> set spaceRunes. \<not> prefix w s)"
proof (cases "find (\<lambda>w. prefix w s) spaceRunes")
  case None
  then have "\<forall>w \<in> set spaceRunes. \<not> prefix w s"
    by (simp add: find_None_iff)
  moreover from None have "spaceWidth s = 0"
    by (simp only: spaceWidth_def option.case)
  ultimately show ?thesis
    by simp
next
  case (Some w)
  from find_prefix_Some [OF Some] have w: "w \<in> set spaceRunes" "prefix w s"
    by simp_all
  from spaceRunes_nonempty [OF w(1)] have "w \<noteq> []" .
  moreover from Some have "spaceWidth s = length w"
    by (simp only: spaceWidth_def option.case)
  ultimately have "spaceWidth s \<noteq> 0"
    by simp
  with w show ?thesis
    by blast
qed

lemma endWidth_zero_iff: "endWidth s = 0 \<longleftrightarrow> (\<forall>w \<in> set spaceRunes. \<not> suffix w s)"
proof (cases "find (\<lambda>w. suffix w s) spaceRunes")
  case None
  then have "\<forall>w \<in> set spaceRunes. \<not> suffix w s"
    by (simp add: find_None_iff)
  moreover from None have "endWidth s = 0"
    by (simp only: endWidth_def option.case)
  ultimately show ?thesis
    by simp
next
  case (Some w)
  from find_prefix_Some [OF Some] have w: "w \<in> set spaceRunes" "suffix w s"
    by simp_all
  from spaceRunes_nonempty [OF w(1)] have "w \<noteq> []" .
  moreover from Some have "endWidth s = length w"
    by (simp only: endWidth_def option.case)
  ultimately have "endWidth s \<noteq> 0"
    by simp
  with w show ?thesis
    by blast
qed

lemma spaceWidth_pos:
  assumes "spaceWidth s \<noteq> 0"
  obtains w r where "w \<in> set spaceRunes" "s = w @ r" "spaceWidth s = length w" "w \<noteq> []"
proof -
  from assms obtain w where f: "find (\<lambda>w. prefix w s) spaceRunes = Some w" and l: "spaceWidth s = length w"
    by (auto simp: spaceWidth_def split: option.splits)
  from find_prefix_Some [OF f] have "w \<in> set spaceRunes" "prefix w s"
    by auto
  moreover from this obtain r where "s = w @ r"
    by (auto simp: prefix_def)
  moreover from assms l have "w \<noteq> []"
    by auto
  ultimately show ?thesis
    using that l by blast
qed

lemma endWidth_pos:
  assumes "endWidth s \<noteq> 0"
  obtains w r where "w \<in> set spaceRunes" "s = r @ w" "endWidth s = length w" "w \<noteq> []"
proof -
  from assms obtain w where f: "find (\<lambda>w. suffix w s) spaceRunes = Some w" and l: "endWidth s = length w"
    by (auto simp: endWidth_def split: option.splits)
  from find_prefix_Some [OF f] have "w \<in> set spaceRunes" "suffix w s"
    by auto
  moreover from this obtain r where "s = r @ w"
    by (auto simp: suffix_def)
  moreover from assms l have "w \<noteq> []"
    by auto
  ultimately show ?thesis
    using that l by blast
qed

lemma filter_spaceRune:
  assumes "\<And>c. P c \<Longrightarrow> \<not> spaceByte c" "w \<in> set spaceRunes"
  shows "filter P w = []"
  using assms unfolding spaceByte_def filter_empty_conv by blast

lemma filter_drop_spaceWidth:
  assumes P: "\<And>c. P c \<Longrightarrow> \<not> spaceByte c" and w: "spaceWidth (c # cs) \<noteq> 0"
  shows "filter P (drop (spaceWidth (c # cs) - 1) cs) = filter P (c # cs)"
proof -
  from w obtain w r where a: "w \<in> set spaceRunes" "c # cs = w @ r" "spaceWidth (c # cs) = length w" "w \<noteq> []"
    by (rule spaceWidth_pos)
  from a(2,4) obtain w' where w': "w = c # w'" "cs = w' @ r"
    by (cases w) auto
  from filter_spaceRune [OF P a(1)] w'(1) have "filter P (c # w') = []"
    by simp
  then have "filter P (c # w' @ r) = filter P r"
    by (auto split: if_splits)
  moreover from a(3) w'(1) have "drop (spaceWidth (c # cs) - 1) cs = drop (length w') cs"
    by simp
  ultimately show ?thesis
    using w'(2) by simp
qed

lemma filter_TrimLeftSpace:
  assumes P: "\<And>c. P c \<Longrightarrow> \<not> spaceByte c"
  shows "filter P (TrimLeftSpace s) = filter P s"
proof (induction s rule: TrimLeftSpace.induct)
  case 1
  then show ?case by simp
next
  case (2 c cs)
  show ?case
  proof (cases "spaceWidth (c # cs) = 0")
    case True
    then show ?thesis by simp
  next
    case False
    from 2 [OF False] filter_drop_spaceWidth [OF P False] False show ?thesis
      by simp
  qed
qed

lemma filter_TrimRightSpace:
  assumes P: "\<And>c. P c \<Longrightarrow> \<not> spaceByte c"
  shows "filter P (TrimRightSpace s) = filter P s"
proof (induction s rule: TrimRightSpace.induct)
  case (1 s)
  show ?case
  proof (cases "endWidth s = 0")
    case True
    then show ?thesis by (simp add: TrimRightSpace.simps [of s])
  next
    case False
    from False obtain w r where a: "w \<in> set spaceRunes" "s = r @ w" "endWidth s = length w" "w \<noteq> []"
      by (rule endWidth_pos)
    have w: "filter P w = []"
      by (rule filter_spaceRune [OF P a(1)])
    have "take (length (r @ w) - length w) (r @ w) = r"
      by simp
    with a(2,3) have tk: "take (length s - endWidth s) s = r"
      by (simp only:)
    from False have "TrimRightSpace s = TrimRightSpace (take (length s - endWidth s) s)"
      by (simp add: TrimRightSpace.simps [of s])
    then have "filter P (TrimRightSpace s) = filter P (take (length s - endWidth s) s)"
      using 1 [OF False] by (simp only:)
    also have "\<dots> = filter P r"
      by (simp only: tk)
    also have "\<dots> = filter P (r @ w)"
      using w by simp
    finally show ?thesis
      by (simp only: a(2) [symmetric])
  qed
qed

lemma filter_TrimSpace:
  assumes P: "\<And>c. P c \<Longrightarrow> \<not> spaceByte c"
  shows "filter P (TrimSpace s) = filter P s"
  by (simp add: TrimSpace_def filter_TrimRightSpace [OF P] filter_TrimLeftSpace [OF P])

lemma filter_Join:
  assumes "\<not> P (CHR '' '')"
  shows "filter P (Join fs '' '') = filter P (concat fs)"
  using assms by (induction fs rule: induct_list012) simp_all

lemma filter_fieldsFrom:
  assumes P: "\<And>c. P c \<Longrightarrow> \<not> spaceByte c"
  shows "filter P (concat (fieldsFrom cur s)) = filter P (cur @ s)"
proof (induction cur s rule: fieldsFrom.induct)
  case (1 cur)
  then show ?case by simp
next
  case (2 cur c cs)
  show ?case
  proof (cases "spaceWidth (c # cs) = 0")
    case True
    with 2(1) [OF True] show ?thesis by simp
  next
    case False
    from 2(2) [OF False] filter_drop_spaceWidth [OF P False] False show ?thesis
      by simp
  qed
qed

lemma spaceByte_space: "spaceByte (CHR '' '')"
  by (simp add: spaceByte_def spaceRunes_def)

lemma filter_Join_Fields:
  assumes P: "\<And>c. P c \<Longrightarrow> \<not> spaceByte c"
  shows "filter P (Join (Fields s) '' '') = filter P s"
proof -
  from P spaceByte_space have "\<not> P (CHR '' '')"
    by blast
  from filter_Join [of P "Fields s", OF this] filter_fieldsFrom [OF P, where cur = "[]" and s = s] show ?thesis
    by (simp add: Fields_def)
qed

lemma spaceWidth_Nil: "spaceWidth [] = 0"
  using spaceRunes_nonempty by (auto simp: spaceWidth_zero_iff)

lemma spaceWidth_TrimLeftSpace: "spaceWidth (TrimLeftSpace s) = 0"
  by (induction s rule: TrimLeftSpace.induct) (simp_all add: spaceWidth_Nil)

lemma endWidth_TrimRightSpace: "endWidth (TrimRightSpace s) = 0"
proof (induction s rule: TrimRightSpace.induct)
  case (1 s)
  then show ?case
    by (cases "endWidth s = 0") (simp_all add: TrimRightSpace.simps [of s])
qed

lemma prefix_TrimRightSpace: "prefix (TrimRightSpace s) s"
proof (induction s rule: TrimRightSpace.induct)
  case (1 s)
  show ?case
  proof (cases "endWidth s = 0")
    case True
    then show ?thesis by (simp add: TrimRightSpace.simps [of s])
  next
    case False
    from 1 [OF False] have "prefix (TrimRightSpace (take (length s - endWidth s) s)) (take (length s - endWidth s) s)" .
    also have "prefix (take (length s - endWidth s) s) s"
      by (rule take_is_prefix)
    finally show ?thesis
      using False by (simp add: TrimRightSpace.simps [of s])
  qed
qed

lemma spaceWidth_prefix:
  assumes "prefix a b" "spaceWidth b = 0"
  shows "spaceWidth a = 0"
  using assms unfolding spaceWidth_zero_iff by (meson prefix_order.trans)

lemma TrimLeftSpace_id: "spaceWidth s = 0 \<Longrightarrow> TrimLeftSpace s = s"
  by (cases s) auto

lemma TrimRightSpace_id: "endWidth s = 0 \<Longrightarrow> TrimRightSpace s = s"
  by (simp add: TrimRightSpace.simps [of s])

lemma TrimSpace_idem: "TrimSpace (TrimSpace s) = TrimSpace s"
proof -
  have "spaceWidth (TrimSpace s) = 0"
    unfolding TrimSpace_def
    by (rule spaceWidth_prefix [OF prefix_TrimRightSpace spaceWidth_TrimLeftSpace])
  then have "TrimLeftSpace (TrimSpace s) = TrimSpace s"
    by (rule TrimLeftSpace_id)
  moreover have "TrimRightSpace (TrimSpace s) = TrimSpace s"
    unfolding TrimSpace_def by (rule TrimRightSpace_id [OF endWidth_TrimRightSpace])
  ultimately show ?thesis
    by (simp add: TrimSpace_def)
qed

lemma matchFold_split:
  assumes "matchFold p s = Some r" "set p \<subseteq> set ''forktuealsny''"
  shows "\<exists>m. s = m @ r \<and> (\<forall>c \<in> set m. quietByte c)"
  using assms
proof (induction p arbitrary: s)
  case Nil
  then show ?case by simp
next
  case (Cons a p)
  from Cons.prems(2) have p: "set p \<subseteq> set ''forktuealsny''" and a: "a \<in> set ''forktuealsny''"
    by simp_all
  from Cons.prems(1) obtain c cs where s: "s = c # cs"
    by (cases s) auto
  from Cons.prems(1) s consider
      "lowerChar c = a" "matchFold p cs = Some r"
    | "prefix [CHR 0xE2, CHR 0x84, CHR 0xAA] s" "matchFold p (drop 3 s) = Some r"
    | "prefix [CHR 0xC5, CHR 0xBF] s" "matchFold p (drop 2 s) = Some r"
    by (auto split: if_splits)
  then show ?case
  proof cases
    case 1
    from Cons.IH [OF 1(2) p] obtain m where m: "cs = m @ r" "\<forall>c \<in> set m. quietByte c"
      by blast
    from 1(1) a have "quietByte c"
      by (simp only: quietByte_def) blast
    with m s have "s = (c # m) @ r \<and> (\<forall>c \<in> set (c # m). quietByte c)"
      by simp
    then show ?thesis
      by blast
  next
    case 2
    from Cons.IH [OF 2(2) p] obtain m where m: "drop 3 s = m @ r" "\<forall>c \<in> set m. quietByte c"
      by blast
    from 2(1) obtain t where t: "s = [CHR 0xE2, CHR 0x84, CHR 0xAA] @ t"
      by (auto simp: prefix_def)
    with m(1) have "s = ([CHR 0xE2, CHR 0x84, CHR 0xAA] @ m) @ r"
      by simp
    moreover have "\<forall>c \<in> set ([CHR 0xE2, CHR 0x84, CHR 0xAA] @ m). quietByte c"
      using m(2) by (simp add: quietByte_def)
    ultimately show ?thesis
      by blast
  next
    case 3
    from Cons.IH [OF 3(2) p] obtain m where m: "drop 2 s = m @ r" "\<forall>c \<in> set m. quietByte c"
      by blast
    from 3(1) obtain t where t: "s = [CHR 0xC5, CHR 0xBF] @ t"
      by (auto simp: prefix_def)
    with m(1) have "s = ([CHR 0xC5, CHR 0xBF] @ m) @ r"
      by simp
    moreover have "\<forall>c \<in> set ([CHR 0xC5, CHR 0xBF] @ m). quietByte c"
      using m(2) by (simp add: quietByte_def)
    ultimately show ?thesis
      by blast
  qed
qed

lemma skipSpace_split: "\<exists>m. s = m @ skipSpace s \<and> (\<forall>c \<in> set m. quietByte c)"
proof -
  have "s = takeWhile isReSpace s @ skipSpace s"
    by (simp add: skipSpace_def)
  moreover have "\<forall>c \<in> set (takeWhile isReSpace s). quietByte c"
    by (auto simp: quietByte_def dest: set_takeWhileD)
  ultimately show ?thesis
    by blast
qed

lemma matchValue_split:
  assumes "matchValue s = Some r"
  shows "\<exists>m. s = m @ r \<and> (\<forall>c \<in> set m. quietByte c)"
proof -
  from assms consider "matchFold ''true'' s = Some r" | "matchFold ''false'' s = Some r"
    | "matchFold ''only'' s = Some r"
    by (auto simp: matchValue_def simp del: matchFold.simps split: option.splits)
  then show ?thesis
  proof cases
    case 1
    show ?thesis by (rule matchFold_split [OF 1]) simp
  next
    case 2
    show ?thesis by (rule matchFold_split [OF 2]) simp
  next
    case 3
    show ?thesis by (rule matchFold_split [OF 3]) simp
  qed
qed

lemma matchFork_split:
  assumes "matchFork prevWord s = Some r"
  shows "\<exists>a b. s = a @ CHR '':'' # b @ r \<and> (\<forall>c \<in> set (a @ b). quietByte c)"
proof -
  from assms obtain r1 r2 where
    a: "matchFold ''fork'' s = Some r1" and
    b: "skipSpace r1 = CHR '':'' # r2" and
    c: "matchValue (skipSpace r2) = Some r"
    by (auto simp: matchFork_def simp del: matchFold.simps
        split: if_splits option.splits list.splits)
  have "set ''fork'' \<subseteq> set ''forktuealsny''"
    by simp
  from matchFold_split [OF a this] obtain m1 where m1: "s = m1 @ r1" "\<forall>c \<in> set m1. quietByte c"
    by blast
  from skipSpace_split [of r1] b obtain m2 where m2: "r1 = m2 @ CHR '':'' # r2" "\<forall>c \<in> set m2. quietByte c"
    by auto
  from skipSpace_split [of r2] obtain m3 where m3: "r2 = m3 @ skipSpace r2" "\<forall>c \<in> set m3. quietByte c"
    by blast
  from matchValue_split [OF c] obtain m4 where m4: "skipSpace r2 = m4 @ r" "\<forall>c \<in> set m4. quietByte c"
    by blast
  from m3(1) m4(1) have "r2 = (m3 @ m4) @ r"
    by simp
  with m1(1) m2(1) have "s = (m1 @ m2) @ CHR '':'' # (m3 @ m4) @ r"
    by simp
  moreover from m1(2) m2(2) m3(2) m4(2) have "\<forall>c \<in> set ((m1 @ m2) @ (m3 @ m4)). quietByte c"
    by auto
  ultimately show ?thesis
    by blast
qed

lemma quietByte_not_colon: "quietByte c \<Longrightarrow> c \<noteq> CHR '':''"
  by (auto simp: quietByte_def lowerChar_def isUpper_def isReSpace_def)

lemma filter_ReplaceAllFork:
  assumes P: "\<And>c. P c \<Longrightarrow> \<not> quietByte c \<and> c \<noteq> CHR '':''"
  shows "filter P (ReplaceAllFork prevWord q) = filter P q"
proof (induction prevWord q rule: ReplaceAllFork.induct)
  case (1 prevWord)
  then show ?case by simp
next
  case (2 prevWord c cs)
  show ?case
  proof (cases "matchFork prevWord (c # cs)")
    case None
    with 2(1) [OF None] show ?thesis by simp
  next
    case (Some r)
    from matchFork_split [OF Some] obtain a b where
      ab: "c # cs = a @ CHR '':'' # b @ r" "\<forall>c \<in> set (a @ b). quietByte c"
      by blast
    from ab(2) P have "filter P a = []" "filter P b = []"
      by (auto simp: filter_empty_conv)
    moreover from P have "\<not> P (CHR '':'')"
      by blast
    ultimately have "filter P (a @ CHR '':'' # b @ r) = filter P r"
      by simp
    with ab(1) have "filter P (c # cs) = filter P r"
      by (simp only:)
    with 2(2) [OF Some] Some show ?thesis
      by simp
  qed
qed

lemma count_ReplaceAllFork:
  "count_list (ReplaceAllFork prevWord q) (CHR '':'') + forkQualifiers prevWord q
     = count_list q (CHR '':'')"
proof (induction prevWord q rule: ReplaceAllFork.induct)
  case (1 prevWord)
  then show ?case by simp
next
  case (2 prevWord c cs)
  show ?case
  proof (cases "matchFork prevWord (c # cs)")
    case None
    with 2(1) [OF None] show ?thesis by auto
  next
    case (Some r)
    from matchFork_split [OF Some] obtain a b where
      ab: "c # cs = a @ CHR '':'' # b @ r" "\<forall>c \<in> set (a @ b). quietByte c"
      by blast
    from ab(2) quietByte_not_colon have "CHR '':'' \<notin> set a" "CHR '':'' \<notin> set b"
      by auto
    then have "count_list (a @ CHR '':'' # b @ r) (CHR '':'') = Suc (count_list r (CHR '':''))"
      by (simp add: count_list_0_iff)
    with ab(1) have "count_list (c # cs) (CHR '':'') = Suc (count_list r (CHR '':''))"
      by (simp only:)
    with 2(2) [OF Some] Some show ?thesis
      by simp
  qed
qed

lemma ReplaceAllFork_id:
  "forkQualifiers prevWord q = 0 \<Longrightarrow> ReplaceAllFork prevWord q = q"
proof (induction prevWord q rule: ReplaceAllFork.induct)
  case (1 prevWord)
  then show ?case by simp
next
  case (2 prevWord c cs)
  from 2(3) have None: "matchFork prevWord (c # cs) = None"
    by (cases "matchFork prevWord (c # cs)") simp_all
  with 2(3) have "forkQualifiers (isWord c) cs = 0"
    by simp
  from 2(1) [OF None this] None show ?case
    by simp
qed

lemma operator_not_space: "isOperator c \<Longrightarrow> \<not> spaceByte c"
  by (auto simp: isOperator_def operatorChars_def spaceByte_def spaceRunes_def)

lemma graphic_not_space: "isGraphic c \<Longrightarrow> \<not> spaceByte c"
  by (auto simp: isGraphic_def spaceByte_def spaceRunes_def)

lemma operator_not_quiet: "isOperator c \<Longrightarrow> c \<noteq> CHR '':'' \<Longrightarrow> \<not> quietByte c"
  by (auto simp: isOperator_def operatorChars_def quietByte_def lowerChar_def isUpper_def isReSpace_def)

lemma spaceRunes_blank: "w \<in> set spaceRunes \<Longrightarrow> CHR '' '' \<in> set w \<Longrightarrow> w = '' ''"
  by (auto simp: spaceRunes_def)

lemma blank_spaceRune: "'' '' \<in> set spaceRunes"
  by (simp add: spaceRunes_def)

lemma spaceWidth_blank: "spaceWidth (CHR '' '' # rest) = 1"
proof -
  from blank_spaceRune have "spaceWidth (CHR '' '' # rest) \<noteq> 0"
    unfolding spaceWidth_zero_iff by (metis Cons_prefix_Cons Nil_prefix)
  then obtain w r where w: "w \<in> set spaceRunes" "CHR '' '' # rest = w @ r"
    "spaceWidth (CHR '' '' # rest) = length w" "w \<noteq> []"
    by (rule spaceWidth_pos)
  from w(2,4) have "CHR '' '' \<in> set w"
    by (cases w) auto
  from spaceRunes_blank [OF w(1) this] w(3) show ?thesis
    by simp
qed

lemma clean_in_front:
  assumes f: "clean f" and rest: "rest = [] \<or> hd rest = CHR '' ''" and i: "i < length f"
  shows "spaceWidth (drop i f @ rest) = 0"
  unfolding spaceWidth_zero_iff
proof
  fix w
  assume w: "w \<in> set spaceRunes"
  show "\<not> prefix w (drop i f @ rest)"
  proof
    assume "prefix w (drop i f @ rest)"
    then have "prefix w (drop i f) \<or> (\<exists>us. w = drop i f @ us \<and> prefix us rest)"
      by (simp add: prefix_append)
    then consider "prefix w (drop i f)" | us where "w = drop i f @ us" "prefix us rest" "us \<noteq> []"
      by (metis append_Nil2 prefix_order.refl)
    then show False
    proof cases
      case 1
      from f i have "spaceWidth (drop i f) = 0"
        by (simp add: clean_def)
      with w 1 show False
        by (simp add: spaceWidth_zero_iff)
    next
      case 2
      from 2(2,3) have "rest \<noteq> []"
        by auto
      with rest have "hd rest = CHR '' ''"
        by simp
      with 2(2,3) \<open>rest \<noteq> []\<close> have "hd us = CHR '' ''"
        by (cases us; cases rest) auto
      with 2(1,3) have "CHR '' '' \<in> set w"
        by (cases us) auto
      from spaceRunes_blank [OF w this] have "length w = 1"
        by simp
      moreover from 2(3) i have "0 < length us" "0 < length (drop i f)"
        by simp_all
      then have "2 \<le> length (drop i f @ us)"
        by (simp only: length_append)
      ultimately show False
        using 2(1) by simp
    qed
  qed
qed

lemma fieldsFrom_clean:
  assumes "\<forall>i < length cur. spaceWidth (drop i cur @ s) = 0"
  shows "\<forall>f \<in> set (fieldsFrom cur s). f \<noteq> [] \<and> clean f"
  using assms
proof (induction cur s rule: fieldsFrom.induct)
  case (1 cur)
  then show ?case
    by (simp add: clean_def)
next
  case (2 cur c cs)
  show ?case
  proof (cases "spaceWidth (c # cs) = 0")
    case True
    have "\<forall>i < length (cur @ [c]). spaceWidth (drop i (cur @ [c]) @ cs) = 0"
    proof (intro allI impI)
      fix i
      assume "i < length (cur @ [c])"
      then consider "i < length cur" | "i = length cur"
        by fastforce
      then show "spaceWidth (drop i (cur @ [c]) @ cs) = 0"
      proof cases
        case 1
        with 2(3) have "spaceWidth (drop i cur @ c # cs) = 0"
          by simp
        with 1 show ?thesis
          by simp
      next
        case 2
        with True show ?thesis
          by simp
      qed
    qed
    from 2(1) [OF True this] True show ?thesis
      by simp
  next
    case False
    have "clean cur"
      unfolding clean_def
    proof (intro allI impI)
      fix i
      assume "i < length cur"
      with 2(3) have "spaceWidth (drop i cur @ c # cs) = 0"
        by simp
      moreover have "prefix (drop i cur) (drop i cur @ c # cs)"
        by simp
      ultimately show "spaceWidth (drop i cur) = 0"
        by (rule spaceWidth_prefix [rotated])
    qed
    moreover have "\<forall>f \<in> set (fieldsFrom [] (drop (spaceWidth (c # cs) - 1) cs)). f \<noteq> [] \<and> clean f"
      by (rule 2(2) [OF False]) simp
    ultimately show ?thesis
      using False by auto
  qed
qed

lemma Fields_clean: "\<forall>f \<in> set (Fields s). f \<noteq> [] \<and> clean f"
  unfolding Fields_def by (rule fieldsFrom_clean) simp

lemma fieldsFrom_field:
  assumes "\<forall>i < length f. spaceWidth (drop i f @ rest) = 0"
  shows "fieldsFrom cur (f @ rest) = fieldsFrom (cur @ f) rest"
  using assms
proof (induction f arbitrary: cur)
  case Nil
  then show ?case by simp
next
  case (Cons a f)
  from Cons.prems have "spaceWidth (drop 0 (a # f) @ rest) = 0"
    by blast
  then have a: "spaceWidth (a # f @ rest) = 0"
    by simp
  have "\<forall>i < length f. spaceWidth (drop i f @ rest) = 0"
  proof (intro allI impI)
    fix i
    assume "i < length f"
    then have "Suc i < length (a # f)"
      by simp
    with Cons.prems have "spaceWidth (drop (Suc i) (a # f) @ rest) = 0"
      by blast
    then show "spaceWidth (drop i f @ rest) = 0"
      by simp
  qed
  from Cons.IH [OF this, of "cur @ [a]"] a show ?case
    by simp
qed

lemma fieldsFrom_blank:
  "fieldsFrom cur (CHR '' '' # rest) = (if cur = [] then [] else [cur]) @ fieldsFrom [] rest"
  by (simp add: spaceWidth_blank)

lemma Fields_Join:
  assumes "\<forall>f \<in> set fs. f \<noteq> [] \<and> clean f"
  shows "fieldsFrom [] (Join fs '' '') = fs"
  using assms
proof (induction fs rule: induct_list012)
  case 1
  then show ?case by simp
next
  case (2 x)
  then have x: "x \<noteq> []" "clean x"
    by simp_all
  from clean_in_front [OF x(2), of "[]"] have "\<forall>i < length x. spaceWidth (drop i x @ []) = 0"
    by blast
  from fieldsFrom_field [OF this, of "[]"] x(1) show ?case
    by simp
next
  case (3 x y zs)
  then have x: "x \<noteq> []" "clean x" and rest: "\<forall>f \<in> set (y # zs). f \<noteq> [] \<and> clean f"
    by simp_all
  let ?rest = "CHR '' '' # Join (y # zs) '' ''"
  from clean_in_front [OF x(2), of ?rest] have "\<forall>i < length x. spaceWidth (drop i x @ ?rest) = 0"
    by simp
  from fieldsFrom_field [OF this, of "[]"]
  have "fieldsFrom [] (x @ ?rest) = fieldsFrom x ?rest"
    by simp
  also have "\<dots> = [x] @ fieldsFrom [] (Join (y # zs) '' '')"
    using x(1) by (simp only: fieldsFrom_blank if_False)
  also have "\<dots> = x # y # zs"
    using 3(2) [OF rest] by simp
  finally show ?case
    by simp
qed

lemma Join_head:
  "\<exists>rest. Join (f # fs) '' '' = f @ rest \<and> (rest = [] \<or> hd rest = CHR '' '')"
  by (cases fs) simp_all

lemma Join_last:
  "fs \<noteq> [] \<Longrightarrow> \<exists>pre. Join fs '' '' = pre @ last fs \<and> (pre = [] \<or> last pre = CHR '' '')"
proof (induction fs rule: induct_list012)
  case 1
  then show ?case by simp
next
  case (2 x)
  then show ?case by simp
next
  case (3 x y zs)
  then obtain pre where pre: "Join (y # zs) '' '' = pre @ last (y # zs)" "pre = [] \<or> last pre = CHR '' ''"
    by auto
  then have "Join (x # y # zs) '' '' = (x @ CHR '' '' # pre) @ last (x # y # zs)"
    by simp
  moreover from pre(2) have "last (x @ CHR '' '' # pre) = CHR '' ''"
    by auto
  ultimately show ?case
    by blast
qed

lemma spaceWidth_Join:
  assumes "\<forall>f \<in> set fs. f \<noteq> [] \<and> clean f"
  shows "spaceWidth (Join fs '' '') = 0"
proof (cases fs)
  case Nil
  then show ?thesis by (simp add: spaceWidth_Nil)
next
  case (Cons f fs')
  with assms have f: "f \<noteq> []" "clean f"
    by simp_all
  from Join_head [of f fs'] obtain rest where
    rest: "Join (f # fs') '' '' = f @ rest" "rest = [] \<or> hd rest = CHR '' ''"
    by blast
  from f(1) have "0 < length f"
    by simp
  from clean_in_front [OF f(2) rest(2) this] rest(1) Cons show ?thesis
    by simp
qed

lemma endWidth_Nil: "endWidth [] = 0"
  using spaceRunes_nonempty by (auto simp: endWidth_zero_iff)

lemma endWidth_Join:
  assumes "\<forall>f \<in> set fs. f \<noteq> [] \<and> clean f"
  shows "endWidth (Join fs '' '') = 0"
proof (cases "fs = []")
  case True
  then show ?thesis by (simp add: endWidth_Nil)
next
  case False
  with assms have f: "last fs \<noteq> []" "clean (last fs)"
    by simp_all
  from Join_last [OF False] obtain pre where
    pre: "Join fs '' '' = pre @ last fs" "pre = [] \<or> last pre = CHR '' ''"
    by blast
  have "\<forall>w \<in> set spaceRunes. \<not> suffix w (pre @ last fs)"
  proof
    fix w
    assume w: "w \<in> set spaceRunes"
    show "\<not> suffix w (pre @ last fs)"
    proof
      assume "suffix w (pre @ last fs)"
      then have "suffix w (last fs) \<or> (\<exists>us. w = us @ last fs \<and> suffix us pre)"
        by (simp add: suffix_append)
      then consider "suffix w (last fs)" | us where "w = us @ last fs" "suffix us pre" "us \<noteq> []"
        by (metis append_Nil suffix_order.refl)
      then show False
      proof cases
        case 1
        then obtain a where a: "last fs = a @ w"
          by (auto simp: suffix_def)
        from spaceRunes_nonempty [OF w] a have "length a < length (last fs)"
          by simp
        with f(2) have "spaceWidth (drop (length a) (last fs)) = 0"
          by (simp add: clean_def)
        with a have "spaceWidth w = 0"
          by simp
        with w show False
          by (auto simp: spaceWidth_zero_iff)
      next
        case 2
        from 2(2,3) have "pre \<noteq> []"
          by auto
        with pre(2) have "last pre = CHR '' ''"
          by simp
        with 2(2,3) \<open>pre \<noteq> []\<close> have "last us = CHR '' ''"
          by (auto simp: suffix_def)
        with 2(1,3) have "CHR '' '' \<in> set w"
          by (metis last_in_set UnCI set_append)
        from spaceRunes_blank [OF w this] have "length w = 1"
          by simp
        moreover from 2(3) f(1) have "0 < length us" "0 < length (last fs)"
          by simp_all
        then have "2 \<le> length (us @ last fs)"
          by (simp only: length_append)
        ultimately show False
          using 2(1) by simp
      qed
    qed
  qed
  with pre(1) show ?thesis
    by (simp add: endWidth_zero_iff)
qed

lemma TrimSpace_Join:
  assumes "\<forall>f \<in> set fs. f \<noteq> [] \<and> clean f"
  shows "TrimSpace (Join fs '' '') = Join fs '' ''"
  by (simp add: TrimSpace_def TrimLeftSpace_id [OF spaceWidth_Join [OF assms]]
      TrimRightSpace_id [OF endWidth_Join [OF assms]])

lemma sanitizeCodeQuery_Join:
  "sanitizeCodeQuery q = Join (Fields (ReplaceAllFork False q)) '' ''"
  by (simp add: sanitizeCodeQuery_def Let_def TrimSpace_Join [OF Fields_clean])

lemma Fields_sanitizeCodeQuery:
  "Fields (sanitizeCodeQuery q) = Fields (ReplaceAllFork False q)"
  unfolding sanitizeCodeQuery_Join
  using Fields_Join [OF Fields_clean] by (simp add: Fields_def)

section \<open>The runs of the scenarios\<close>

lemma run_twoCodeQueries:
  "runSearches world settings twoCodeQueries
     = (findingsOf [hitSecondA\<lparr>CommitDate := midnight 738889\<rparr>,
                    hitSecondB\<lparr>CommitDate := midnight 738888\<rparr>] [] [], None)"
  by code_simp

lemma run_twoCodeQueries_unchecked:
  "runSearches world (settings\<lparr>UseCommitCheck := False\<rparr>) twoCodeQueries
     = (findingsOf [hitFirstA, hitSecondB, hitSecondC] [] [], None)"
  by code_simp

lemma raw_twoCodeQueries:
  "map_sum id codeHits (searchPhase world settings twoCodeQueries)
     = Inr [hitFirstA, hitSecondA, hitSecondB, hitSecondC]"
  by code_simp

lemma spec_order_twoCodeQueries:
  "sortCodeHits (firstOccurrences codeKey
      (commitCheck world settings (windowStart world settings)
         [hitFirstA, hitSecondA, hitSecondB, hitSecondC]))
     = [hitSecondB\<lparr>CommitDate := midnight 738888\<rparr>, hitFirstA\<lparr>CommitDate := midnight 738887\<rparr>]"
  by code_simp


lemma run_oneRepoQuery:
  "runSearches world settings oneRepoQuery = (findingsOf [] [freshHit] [], None)"
  by code_simp


lemma polygon_urls:
  "codeSearchURL (urlQueryEscape (sanitizeCodeQuery (sqQuery polygonQuery))) 50 1 = lenientPolygon"
  "codeSearchURL (QueryEscape (TrimSpace (sanitizeCodeQuery (sqQuery polygonQuery)))) 50 1 = strictPolygon"
  "lenientPolygon \<noteq> strictPolygon"
  by code_simp+

lemma run_retryWorld:
  "runSearches retryWorld settings onePolygonQuery = (findingsOf [] [] [], None)"
  by code_simp

lemma raw_retryWorld:
  "map_sum id codeHits (searchPhase retryWorld settings onePolygonQuery) = Inr [hitFirstA]"
  by code_simp

lemma run_retryLostWorld:
  "runSearches retryLostWorld settings onePolygonQuery
     = (findingsOf [] []
          [statusNote (qNameOf polygonGroup polygonQuery) resp422 lenientPolygon,
           ''No code hits returned for '' @ qNameOf polygonGroup polygonQuery], None)"
  by code_simp

lemma run_retryRejectedWorld:
  "runSearches retryRejectedWorld settings onePolygonQuery
     = (findingsOf [] []
          [retryNote (qNameOf polygonGroup polygonQuery)
             (resp422\<lparr>Body := ''Validation Failed again''\<rparr>) strictPolygon,
           statusNote (qNameOf polygonGroup polygonQuery) resp422 lenientPolygon,
           ''No code hits returned for '' @ qNameOf polygonGroup polygonQuery], None)"
  by code_simp


lemma polygon_first_page:
  "(1::int) \<le> 2" "PerPage settings = 50" "MaxPages settings = 2"
  "clientGet retryWorld 0 lenientPolygon = Inr resp422"
  "clientGet retryWorld (Suc 0) strictPolygon = Inr (ok200 ''A'')"
  "clientGet retryRejectedWorld 0 lenientPolygon = Inr resp422"
  "clientGet retryRejectedWorld (Suc 0) strictPolygon = Inr (resp422\<lparr>Body := ''Validation Failed again''\<rparr>)"
  "clientGet retryLostWorld 0 lenientPolygon = Inr resp422"
  "clientGet retryLostWorld (Suc 0) strictPolygon = Inl ''connection reset by peer''"
  "StatusCode resp422 = 422" "StatusCode (ok200 ''A'') = 200"
  "jsonCode retryWorld (Body (ok200 ''A''))
     = Inr \<lparr>csTotalCount = 1, csIncompleteResults = False, csItems = [itemA]\<rparr>"
  "ctxErr retryWorld 0 = None" "ctxErr retryRejectedWorld 0 = None" "ctxErr retryLostWorld 0 = None"
  "tick initState = 0" "runNotes initState = []" "codeHits initState = []"
  using polygon_urls(3)
  by (simp_all add: retryWorld_def retryRejectedWorld_def retryLostWorld_def world_def settings_def
      resp422_def ok200_def initState_def)


lemma throttle_limited:
  "Header limited ''Retry-After'' = []"
  "fst (Atoi (Header limited ''X-RateLimit-Remaining'')) = 0"
  "ToLower (Header limited ''X-RateLimit-Resource'') = ''search''"
  "ParseInt (Header limited ''X-RateLimit-Reset'') = (1704672030, True)"
  "Unix 1704672030 - noon = 30 * Second"
  by code_simp+

lemma throttle_limitedRetryAfter:
  "Header limitedRetryAfter ''Retry-After'' \<noteq> []"
  "Atoi (TrimSpace (Header limitedRetryAfter ''Retry-After'')) = (5, True)"
  "fst (Atoi (Header limitedRetryAfter ''X-RateLimit-Remaining'')) = 0"
  "ToLower (Header limitedRetryAfter ''X-RateLimit-Resource'') = ''search''"
  "ParseInt (Header limitedRetryAfter ''X-RateLimit-Reset'') = (1704672030, True)"
  "slept (throttleFrom noon limitedRetryAfter) = 5 * Second + 500 * Millisecond"
  "5 * Second + 500 * Millisecond < 30 * Second"
  by code_simp+

lemma throttle_retryAfterHuge:
  "Atoi (TrimSpace (Header retryAfterHuge ''Retry-After'')) = (9223372037, True)"
  "throttleFrom noon retryAfterHuge = - 9223372036209551616"
  "slept (throttleFrom noon retryAfterHuge) = 0"
  by code_simp+


lemma run_outOfOrder:
  "poolRun world (windowStart world settings) threeHits 2 outOfOrder (poolInit threeHits)
     = Some threeEnriched"
  "poolDone threeHits threeEnriched"
  "poolRun world (windowStart world settings) threeHits 2 [Take, Take] (poolInit threeHits)
     = Some \<lparr>nextJob = 2, busy = [0, 1], out = threeHits\<rparr>"
  "poolRun world (windowStart world settings) threeHits 2 [Take, Take, Take] (poolInit threeHits)
     = None"
  by code_simp+

lemma run_operatorQuery:
  "forkQualifiers False operatorQuery = 0"
  "Fields operatorQuery
     = [''(polygon.io'', ''OR'', ''alpaca)'', ''language:python'', ''stars:>=5'', ''topic:a,b'']"
  "filter isOperator operatorQuery = ''()::>=:,''"
  by code_simp+

lemma run_forkedQuery:
  "forkQualifiers False forkedQuery = 1"
  "sanitizeCodeQuery forkedQuery = ''language:go (a OR b)''"
  "urlQueryEscape (sanitizeCodeQuery forkedQuery) = ''language:go+(a+OR+b)''"
  by code_simp+

section \<open>Sorting of the final CodeHits\<close>

text \<open>
  C3.  In the Findings that runSearches returns, the CodeHits are in descending order
  of the derived commit date: of two hits that both have a date, the later one in the
  sequence has no later date; after a hit without a date only hits without a date
  follow; and two hits without a date compare as equal, the comparison of the sort
  putting neither before the other.
\<close>

theorem codeHits_sorted_by_commit_date:
  assumes run: "runSearches E cfg spec = (f, r)"
    and ij: "i < j" "j < length (CodeHits f)"
  shows "(\<not> IsZero (CommitDate (CodeHits f ! i)) \<and> \<not> IsZero (CommitDate (CodeHits f ! j))
            \<longrightarrow> CommitDate (CodeHits f ! j) \<le> CommitDate (CodeHits f ! i))
       \<and> (IsZero (CommitDate (CodeHits f ! i)) \<longrightarrow> IsZero (CommitDate (CodeHits f ! j)))
       \<and> (IsZero (CommitDate (CodeHits f ! i)) \<and> IsZero (CommitDate (CodeHits f ! j))
            \<longrightarrow> \<not> codeLess (CodeHits f ! i) (CodeHits f ! j)
              \<and> \<not> codeLess (CodeHits f ! j) (CodeHits f ! i))"
proof -
  from CodeHits_ordered [OF run] ij
  have "\<not> codeLess (CodeHits f ! j) (CodeHits f ! i)"
    by (simp add: sorted_wrt_iff_nth_less)
  then show ?thesis
    by (auto simp: codeLess_def IsZero_def After_def Let_def split: if_splits)
qed

theorem codeHits_sorted_by_commit_date_witness:
  "runSearches world settings twoCodeQueries
     = (findingsOf [hitSecondA\<lparr>CommitDate := midnight 738889\<rparr>,
                    hitSecondB\<lparr>CommitDate := midnight 738888\<rparr>] [] [], None)
   \<and> midnight 738888 \<le> midnight 738889
   \<and> runSearches world (settings\<lparr>UseCommitCheck := False\<rparr>) twoCodeQueries
     = (findingsOf [hitFirstA, hitSecondB, hitSecondC] [] [], None)
   \<and> \<not> codeLess hitFirstA hitSecondB \<and> \<not> codeLess hitSecondB hitFirstA"
proof -
  let ?f = "findingsOf [hitSecondA\<lparr>CommitDate := midnight 738889\<rparr>,
                        hitSecondB\<lparr>CommitDate := midnight 738888\<rparr>] [] []"
  let ?g = "findingsOf [hitFirstA, hitSecondB, hitSecondC] [] []"
  have dated: "\<not> IsZero (midnight 738889)" "\<not> IsZero (midnight 738888)"
    by (simp_all add: IsZero_def midnight_def Hour_def)
  have undated: "IsZero (CommitDate hitFirstA)" "IsZero (CommitDate hitSecondB)"
    by (simp_all add: IsZero_def hitFirstA_def hitSecondB_def codeHitOf_def)
  from codeHits_sorted_by_commit_date [OF run_twoCodeQueries, of 0 1] dated
  have "midnight 738888 \<le> midnight 738889"
    by (simp add: findingsOf_def)
  moreover from codeHits_sorted_by_commit_date [OF run_twoCodeQueries_unchecked, of 0 1] undated
  have "\<not> codeLess hitFirstA hitSecondB \<and> \<not> codeLess hitSecondB hitFirstA"
    by (simp add: findingsOf_def)
  ultimately show ?thesis
    using run_twoCodeQueries run_twoCodeQueries_unchecked by simp
qed

section \<open>Deduplication in the final Findings\<close>

text \<open>
  C2, as the claim states it, fails.  runSearches sorts before it deduplicates, so of
  the hits that share a key the one kept is the first in the sorted sequence, not the
  first that was collected.  In the scenario the file of \<^verbatim>\<open>acme/ticks\<close> is found first
  by the query \<open>first\<close> and then by the query \<open>second\<close>, the commit date derived for
  the second hit is the later one, and the Findings keep the second hit; deduplicating
  in the order of collection and sorting afterwards would keep the first.
\<close>

theorem first_in_insertion_order_counterexample:
  "map_sum id codeHits (searchPhase world settings twoCodeQueries)
     = Inr [hitFirstA, hitSecondA, hitSecondB, hitSecondC]
   \<and> codeKey hitFirstA = codeKey hitSecondA
   \<and> QueryName hitFirstA = ''first'' \<and> QueryName hitSecondA = ''second''
   \<and> CodeHits (fst (runSearches world settings twoCodeQueries))
       = [hitSecondA\<lparr>CommitDate := midnight 738889\<rparr>, hitSecondB\<lparr>CommitDate := midnight 738888\<rparr>]
   \<and> sortCodeHits (firstOccurrences codeKey
        (commitCheck world settings (windowStart world settings)
           [hitFirstA, hitSecondA, hitSecondB, hitSecondC]))
       = [hitSecondB\<lparr>CommitDate := midnight 738888\<rparr>, hitFirstA\<lparr>CommitDate := midnight 738887\<rparr>]"
proof -
  have "codeKey hitFirstA = codeKey hitSecondA"
    by (simp add: codeKey_def hitFirstA_def hitSecondA_def codeHitOf_def)
  moreover have "QueryName hitFirstA = ''first''" "QueryName hitSecondA = ''second''"
    by (simp_all add: hitFirstA_def hitSecondA_def codeHitOf_def codeQuery_def)
  ultimately show ?thesis
    using raw_twoCodeQueries spec_order_twoCodeQueries run_twoCodeQueries
    by (simp add: findingsOf_def)
qed


text \<open>
  C2, amended.  In the Findings of a run without error the key strings
  \<^verbatim>\<open>repository|path|url\<close> of the CodeHits are pairwise different, hence so are the
  triples (repository, file path, file URL), and the full names of the RepoHits are
  pairwise different.  The CodeHits are the first occurrences, by key, in the sorted
  sequence of the hits that passed the commit check, in the order of that sequence;
  the RepoHits are the first occurrences, by full name, in the sorted sequence of the
  collected repository hits.
\<close>

theorem dedup_keys_unique_first_in_sorted_order:
  assumes run: "runSearches E cfg spec = (f, None)"
  shows "distinct (map codeKey (CodeHits f))
    \<and> distinct (map (\<lambda>h. (Repository h, FilePath h, FileURL h)) (CodeHits f))
    \<and> distinct (map FullName (RepoHits f))
    \<and> (\<exists>s cs rs. searchPhase E cfg spec = Inr s
          \<and> mset cs = mset (commitCheck E cfg (windowStart E cfg) (codeHits s))
          \<and> sorted_wrt (\<lambda>a b. \<not> codeLess b a) cs
          \<and> CodeHits f = firstOccurrences codeKey cs
          \<and> mset rs = mset (repoHits s)
          \<and> sorted_wrt (\<lambda>a b. \<not> repoLess b a) rs
          \<and> RepoHits f = firstOccurrences FullName rs)"
proof -
  from runSearches_cases [OF run] obtain s where
    s: "searchPhase E cfg spec = Inr s" and
    c: "CodeHits f = dedupeCode (sortCodeHits (commitCheck E cfg (windowStart E cfg) (codeHits s)))" and
    r: "RepoHits f = dedupeRepo (sortRepoHits (repoHits s))"
    by auto
  have 1: "distinct (map codeKey (CodeHits f))"
    by (simp add: c dedupeCode_def dedupeCodeFrom_distinct)
  have 2: "distinct (map FullName (RepoHits f))"
    by (simp add: r dedupeRepo_def dedupeRepoFrom_distinct)
  let ?cs = "sortCodeHits (commitCheck E cfg (windowStart E cfg) (codeHits s))"
  let ?rs = "sortRepoHits (repoHits s)"
  have "mset ?cs = mset (commitCheck E cfg (windowStart E cfg) (codeHits s))"
    by (rule mset_sortCodeHits)
  moreover have "sorted_wrt (\<lambda>a b. \<not> codeLess b a) ?cs"
    by (rule sortCodeHits_ordered)
  moreover have "CodeHits f = firstOccurrences codeKey ?cs"
    by (simp add: c dedupeCode_firstOccurrences)
  moreover have "mset ?rs = mset (repoHits s)"
    by (rule mset_sortRepoHits)
  moreover have "sorted_wrt (\<lambda>a b. \<not> repoLess b a) ?rs"
    by (rule sortRepoHits_ordered)
  moreover have "RepoHits f = firstOccurrences FullName ?rs"
    by (simp add: r dedupeRepo_firstOccurrences)
  ultimately have "\<exists>s cs rs. searchPhase E cfg spec = Inr s
          \<and> mset cs = mset (commitCheck E cfg (windowStart E cfg) (codeHits s))
          \<and> sorted_wrt (\<lambda>a b. \<not> codeLess b a) cs
          \<and> CodeHits f = firstOccurrences codeKey cs
          \<and> mset rs = mset (repoHits s)
          \<and> sorted_wrt (\<lambda>a b. \<not> repoLess b a) rs
          \<and> RepoHits f = firstOccurrences FullName rs"
    using s by blast
  with 1 2 distinct_triples [OF 1] show ?thesis
    by simp
qed

theorem dedup_keys_unique_first_in_sorted_order_witness:
  "runSearches world settings twoCodeQueries
     = (findingsOf [hitSecondA\<lparr>CommitDate := midnight 738889\<rparr>,
                    hitSecondB\<lparr>CommitDate := midnight 738888\<rparr>] [] [], None)
   \<and> distinct [codeKey hitSecondA, codeKey hitSecondB]
   \<and> distinct [(Repository hitSecondA, FilePath hitSecondA, FileURL hitSecondA),
                (Repository hitSecondB, FilePath hitSecondB, FileURL hitSecondB)]"
  using dedup_keys_unique_first_in_sorted_order [OF run_twoCodeQueries] run_twoCodeQueries
  by (simp add: findingsOf_def codeKey_def)


section \<open>The commit check as a filter\<close>

text \<open>
  C7.  With the commit check switched on, every CodeHit of the returned Findings has a
  derived commit date that is set and not before the start of the window; it is a
  collected hit with the date that its own commits request produced, and that request
  did not fail.  A hit whose date stays unset or is older is in no Findings.
\<close>

theorem commit_check_drops_unverified:
  assumes check: "UseCommitCheck cfg"
    and run: "runSearches E cfg spec = (f, r)"
    and h: "h \<in> set (CodeHits f)"
  shows "\<not> IsZero (CommitDate h) \<and> \<not> Before (CommitDate h) (windowStart E cfg)
    \<and> (\<exists>s i. searchPhase E cfg spec = Inr s \<and> i < length (codeHits s)
          \<and> h = (codeHits s ! i)\<lparr>CommitDate := workerResult E (windowStart E cfg) i (codeHits s ! i)\<rparr>
          \<and> (\<forall>err. commitsGet E i (commitsURL E (windowStart E cfg) (codeHits s ! i)) \<noteq> Inl err))"
proof -
  from runSearches_cases [OF run] h obtain s where
    s: "searchPhase E cfg spec = Inr s" and
    c: "CodeHits f = dedupeCode (sortCodeHits (commitCheck E cfg (windowStart E cfg) (codeHits s)))"
    by (auto simp: zeroFindings_def)
  from h c have "h \<in> set (dedupeCode (sortCodeHits (commitCheck E cfg (windowStart E cfg) (codeHits s))))"
    by simp
  then have "h \<in> set (sortCodeHits (commitCheck E cfg (windowStart E cfg) (codeHits s)))"
    by (rule in_dedupeCode)
  then have "h \<in> set (commitCheck E cfg (windowStart E cfg) (codeHits s))"
    by (simp add: set_sortCodeHits)
  from set_commitCheck [OF check this] obtain i where
    i: "i < length (codeHits s)"
    and eq: "h = (codeHits s ! i)\<lparr>CommitDate := workerResult E (windowStart E cfg) i (codeHits s ! i)\<rparr>"
    and ok: "\<not> IsZero (workerResult E (windowStart E cfg) i (codeHits s ! i))"
      "\<not> Before (workerResult E (windowStart E cfg) i (codeHits s ! i)) (windowStart E cfg)"
    by blast
  from ok(1) have "\<forall>err. commitsGet E i (commitsURL E (windowStart E cfg) (codeHits s ! i)) \<noteq> Inl err"
    using workerResult_failed by blast
  with s i eq ok show ?thesis
    by auto
qed

theorem commit_check_drops_unverified_witness:
  "UseCommitCheck settings
   \<and> runSearches world settings twoCodeQueries
     = (findingsOf [hitSecondA\<lparr>CommitDate := midnight 738889\<rparr>,
                    hitSecondB\<lparr>CommitDate := midnight 738888\<rparr>] [] [], None)
   \<and> \<not> IsZero (midnight 738888) \<and> \<not> Before (midnight 738888) (windowStart world settings)"
proof -
  have c: "UseCommitCheck settings"
    by (simp add: settings_def)
  have "hitSecondB\<lparr>CommitDate := midnight 738888\<rparr>
      \<in> set (CodeHits (findingsOf [hitSecondA\<lparr>CommitDate := midnight 738889\<rparr>,
                    hitSecondB\<lparr>CommitDate := midnight 738888\<rparr>] [] []))"
    by (simp add: findingsOf_def)
  from commit_check_drops_unverified [OF c run_twoCodeQueries this]
  have "\<not> IsZero (midnight 738888) \<and> \<not> Before (midnight 738888) (windowStart world settings)"
    by simp
  with c run_twoCodeQueries show ?thesis
    by simp
qed

section \<open>The local check of the pushed timestamp\<close>

text \<open>
  C6.  Every RepoHit of the returned Findings comes from an item of a repository
  search whose pushed timestamp, as parsed, is not before the start of the window, and
  carries that timestamp; an item pushed before the start of the window is left out,
  whatever the server did with the \<^verbatim>\<open>pushed:>=\<close> qualifier of the request.  For a
  window of 0 to 365 days the start of the window is the instant of the run minus that
  many days.
\<close>

theorem repoHits_within_window:
  assumes run: "runSearches E cfg spec = (f, r)"
    and h: "h \<in> set (RepoHits f)"
  shows "\<not> Before (PushedAt h) (windowStart E cfg)
    \<and> (\<exists>g q it. h = repoHitOf E g q it
          \<and> \<not> Before (timeParse E (riPushedAt it)) (windowStart E cfg))
    \<and> (0 \<le> DaysBack cfg \<and> DaysBack cfg \<le> 365
          \<longrightarrow> windowStart E cfg = timeNow E - DaysBack cfg * 24 * Hour)"
proof -
  from runSearches_cases [OF run] h obtain s where
    s: "searchPhase E cfg spec = Inr s" and
    c: "RepoHits f = dedupeRepo (sortRepoHits (repoHits s))"
    by (auto simp: zeroFindings_def)
  from h c have "h \<in> set (dedupeRepo (sortRepoHits (repoHits s)))"
    by simp
  then have "h \<in> set (sortRepoHits (repoHits s))"
    by (rule in_dedupeRepo)
  then have "h \<in> set (repoHits s)"
    by (simp add: set_sortRepoHits)
  from repoHits_in_window [OF s this] obtain g q it where
    it: "h = repoHitOf E g q it" "\<not> Before (timeParse E (riPushedAt it)) (windowStart E cfg)"
    by blast
  then have "\<not> Before (PushedAt h) (windowStart E cfg)"
    by (simp add: repoHitOf_def)
  with it show ?thesis
    using sinceOf_days [of "DaysBack cfg" "timeNow E"] by (auto simp: windowStart_def)
qed

theorem repoHits_within_window_witness:
  "runSearches world settings oneRepoQuery = (findingsOf [] [freshHit] [], None)
   \<and> \<not> Before (PushedAt freshHit) (windowStart world settings)
   \<and> windowStart world settings = timeNow world - 7 * 24 * Hour
   \<and> rsItems (projr (jsonRepo world ''R'')) = [repoOld, repoFresh]
   \<and> Before (timeParse world (riPushedAt repoOld)) (windowStart world settings)"
proof -
  have "freshHit \<in> set (RepoHits (findingsOf [] [freshHit] []))"
    by (simp add: findingsOf_def)
  from repoHits_within_window [OF run_oneRepoQuery this]
  have a: "\<not> Before (PushedAt freshHit) (windowStart world settings)"
    and b: "0 \<le> DaysBack settings \<and> DaysBack settings \<le> 365
      \<longrightarrow> windowStart world settings = timeNow world - DaysBack settings * 24 * Hour"
    by blast+
  have "DaysBack settings = 7"
    by (simp add: settings_def)
  with b have c: "windowStart world settings = timeNow world - 7 * 24 * Hour"
    by simp
  note a c
  moreover have "rsItems (projr (jsonRepo world ''R'')) = [repoOld, repoFresh]"
    by (simp add: world_def)
  moreover have "Before (timeParse world (riPushedAt repoOld)) (timeNow world - 7 * 24 * Hour)"
    by (simp add: world_def repoOld_def Before_def midnight_def Hour_def)
  ultimately show ?thesis
    using run_oneRepoQuery by simp
qed

section \<open>Findings or one terminal error\<close>



section \<open>The retry after an unprocessable query\<close>

text \<open>
  C5, as the claim states it, fails in two places.  The items of a successful retry
  are collected, but with the commit check they reach the Findings only if their
  commits request confirms them: in \<open>retryWorld\<close> the retry returns status 200 with one
  item, the run ends without error, and the CodeHits are empty.  And a retry that fails
  as a request leaves one diagnostic note, not two: in \<open>retryLostWorld\<close> the notes of
  the run are the note on the first response and the note that the query found
  nothing.
\<close>

theorem retry_after_422_counterexample:
  "StatusCode (projr (clientGet retryWorld 0 lenientPolygon)) = 422
   \<and> StatusCode (projr (clientGet retryWorld 1 strictPolygon)) = 200
   \<and> csItems (projr (jsonCode retryWorld (Body (projr (clientGet retryWorld 1 strictPolygon)))))
       = [itemA]
   \<and> map_sum id codeHits (searchPhase retryWorld settings onePolygonQuery) = Inr [hitFirstA]
   \<and> runSearches retryWorld settings onePolygonQuery = (findingsOf [] [] [], None)
   \<and> StatusCode (projr (clientGet retryLostWorld 0 lenientPolygon)) = 422
   \<and> clientGet retryLostWorld 1 strictPolygon = Inl ''connection reset by peer''
   \<and> runSearches retryLostWorld settings onePolygonQuery
       = (findingsOf [] []
            [statusNote (qNameOf polygonGroup polygonQuery) resp422 lenientPolygon,
             ''No code hits returned for '' @ qNameOf polygonGroup polygonQuery], None)"
  using raw_retryWorld run_retryWorld run_retryLostWorld
  by (simp add: polygon_first_page)


text \<open>
  C5, amended.  When a page of a code search returns status 422, the same page is
  requested once more with the strict encoding.  If the retry returns status 200 with
  items, these are appended to the collected code hits, where they stay to the end of
  the loop, and the pagination goes on with the next page; whether they reach the final
  CodeHits is then left to the commit check and the deduplication.  If the retry
  returns another status, no hit is added, the note on the retry and then the note on
  the first response are recorded, and the loop of the query ends without an error.
\<close>

theorem retry_after_422:
  assumes "page \<le> maxPages" and "ctxErr E (tick s) = None"
    and "clientGet E (tick s)
           (codeSearchURL (urlQueryEscape (sanitizeCodeQuery (sqQuery q))) perPage page) = Inr resp"
    and "StatusCode resp = 422"
    and "clientGet E (tick s + 1)
           (codeSearchURL (QueryEscape (TrimSpace (sanitizeCodeQuery (sqQuery q)))) perPage page)
         = Inr resp2"
  shows "(\<forall>cr2. StatusCode resp2 = 200 \<and> jsonCode E (Body resp2) = Inr cr2 \<and> csItems cr2 \<noteq> []
          \<longrightarrow> codeLoop E perPage maxPages g q page found s
              = codeLoop E perPage maxPages g q (page + 1) (found + int (length (csItems cr2)))
                  (s\<lparr>tick := tick s + 2,
                     codeHits := codeHits s @ map (codeHitOf g q) (csItems cr2),
                     throttled := throttled s @ [resp2]\<rparr>)
            \<and> (\<forall>found' s'. codeLoop E perPage maxPages g q page found s = Inr (found', s')
                 \<longrightarrow> prefix (codeHits s @ map (codeHitOf g q) (csItems cr2)) (codeHits s')))
       \<and> (StatusCode resp2 \<noteq> 200
          \<longrightarrow> codeLoop E perPage maxPages g q page found s
              = Inr (found,
                  s\<lparr>tick := tick s + 2,
                    runNotes := runNotes s
                      @ [retryNote (qNameOf g q) resp2
                           (codeSearchURL (QueryEscape (TrimSpace (sanitizeCodeQuery (sqQuery q))))
                              perPage page),
                         statusNote (qNameOf g q) resp
                           (codeSearchURL (urlQueryEscape (sanitizeCodeQuery (sqQuery q))) perPage page)],
                    throttled := throttled s @ [resp]\<rparr>))"
proof (intro conjI allI impI)
  fix cr2
  assume ok: "StatusCode resp2 = 200 \<and> jsonCode E (Body resp2) = Inr cr2 \<and> csItems cr2 \<noteq> []"
  let ?s = "s\<lparr>tick := tick s + 2,
                     codeHits := codeHits s @ map (codeHitOf g q) (csItems cr2),
                     throttled := throttled s @ [resp2]\<rparr>"
  from assms ok
  show eq: "codeLoop E perPage maxPages g q page found s
      = codeLoop E perPage maxPages g q (page + 1) (found + int (length (csItems cr2))) ?s"
    by (simp add: codeLoop.simps [of E perPage maxPages g q page found s] codePage_def Let_def)
  fix found' s'
  assume "codeLoop E perPage maxPages g q page found s = Inr (found', s')"
  with eq have "codeLoop E perPage maxPages g q (page + 1) (found + int (length (csItems cr2))) ?s
      = Inr (found', s')"
    by simp
  from codeHits_grow [OF this]
  show "prefix (codeHits s @ map (codeHitOf g q) (csItems cr2)) (codeHits s')"
    by simp
next
  assume "StatusCode resp2 \<noteq> 200"
  with assms
  show "codeLoop E perPage maxPages g q page found s
              = Inr (found,
                  s\<lparr>tick := tick s + 2,
                    runNotes := runNotes s
                      @ [retryNote (qNameOf g q) resp2
                           (codeSearchURL (QueryEscape (TrimSpace (sanitizeCodeQuery (sqQuery q))))
                              perPage page),
                         statusNote (qNameOf g q) resp
                           (codeSearchURL (urlQueryEscape (sanitizeCodeQuery (sqQuery q))) perPage page)],
                    throttled := throttled s @ [resp]\<rparr>)"
    by (simp add: codeLoop.simps [of E perPage maxPages g q page found s] codePage_def Let_def)
qed

theorem retry_after_422_witness:
  "codeLoop retryWorld 50 2 polygonGroup polygonQuery 1 0 initState
     = codeLoop retryWorld 50 2 polygonGroup polygonQuery 2 1
         (initState\<lparr>tick := 2, codeHits := [hitFirstA], throttled := [ok200 ''A'']\<rparr>)
   \<and> codeLoop retryRejectedWorld 50 2 polygonGroup polygonQuery 1 0 initState
     = Inr (0, initState\<lparr>tick := 2,
          runNotes := [retryNote (qNameOf polygonGroup polygonQuery)
                         (resp422\<lparr>Body := ''Validation Failed again''\<rparr>) strictPolygon,
                       statusNote (qNameOf polygonGroup polygonQuery) resp422 lenientPolygon],
          throttled := [resp422]\<rparr>)"
proof -
  have hit: "codeHitOf polygonGroup polygonQuery itemA = hitFirstA"
    by (simp add: hitFirstA_def codeHitOf_def polygonGroup_def feeds_def polygonQuery_def)
  from retry_after_422 [of 1 2 retryWorld initState polygonQuery 50 resp422 "ok200 ''A''"
      polygonGroup 0, THEN conjunct1, rule_format,
      of "\<lparr>csTotalCount = 1, csIncompleteResults = False, csItems = [itemA]\<rparr>"]
  have a: "codeLoop retryWorld 50 2 polygonGroup polygonQuery 1 0 initState
     = codeLoop retryWorld 50 2 polygonGroup polygonQuery 2 1
         (initState\<lparr>tick := 2, codeHits := [hitFirstA], throttled := [ok200 ''A'']\<rparr>)"
    by (simp add: polygon_first_page polygon_urls hit initState_def numeral_2_eq_2)
  from retry_after_422 [of 1 2 retryRejectedWorld initState polygonQuery 50 resp422
      "resp422\<lparr>Body := ''Validation Failed again''\<rparr>" polygonGroup 0, THEN conjunct2]
  have b: "codeLoop retryRejectedWorld 50 2 polygonGroup polygonQuery 1 0 initState
     = Inr (0, initState\<lparr>tick := 2,
          runNotes := [retryNote (qNameOf polygonGroup polygonQuery)
                         (resp422\<lparr>Body := ''Validation Failed again''\<rparr>) strictPolygon,
                       statusNote (qNameOf polygonGroup polygonQuery) resp422 lenientPolygon],
          throttled := [resp422]\<rparr>)"
    by (simp add: polygon_first_page polygon_urls initState_def numeral_2_eq_2)
  from a b show ?thesis ..
qed


section \<open>A retry that fails as a request\<close>

text \<open>
  C10.  If the request of the strict retry after a 422 fails, the loop of the query
  ends without an error, with exactly one note more than before, the note on the first
  response, and the run goes on; if the request of a page itself fails, the loop
  returns that error, which ends the run.
\<close>

theorem retry_transport_failure_leaves_one_note:
  assumes "page \<le> maxPages" and "ctxErr E (tick s) = None"
  shows "(\<forall>resp m.
            clientGet E (tick s)
              (codeSearchURL (urlQueryEscape (sanitizeCodeQuery (sqQuery q))) perPage page) = Inr resp
          \<and> StatusCode resp = 422
          \<and> clientGet E (tick s + 1)
              (codeSearchURL (QueryEscape (TrimSpace (sanitizeCodeQuery (sqQuery q)))) perPage page) = Inl m
          \<longrightarrow> codeLoop E perPage maxPages g q page found s
              = Inr (found,
                  s\<lparr>tick := tick s + 2,
                    runNotes := runNotes s
                      @ [statusNote (qNameOf g q) resp
                           (codeSearchURL (urlQueryEscape (sanitizeCodeQuery (sqQuery q))) perPage page)],
                    throttled := throttled s @ [resp]\<rparr>))
       \<and> (\<forall>m.
            clientGet E (tick s)
              (codeSearchURL (urlQueryEscape (sanitizeCodeQuery (sqQuery q))) perPage page) = Inl m
          \<longrightarrow> codeLoop E perPage maxPages g q page found s = Inl (TransportErr m))"
  using assms
  by (simp add: codeLoop.simps [of E perPage maxPages g q page found s] codePage_def Let_def)


theorem retry_transport_failure_leaves_one_note_witness:
  "codeLoop retryLostWorld 50 2 polygonGroup polygonQuery 1 0 initState
     = Inr (0, initState\<lparr>tick := 2,
          runNotes := [statusNote (qNameOf polygonGroup polygonQuery) resp422 lenientPolygon],
          throttled := [resp422]\<rparr>)
   \<and> runSearches retryLostWorld settings onePolygonQuery
       = (findingsOf [] []
            [statusNote (qNameOf polygonGroup polygonQuery) resp422 lenientPolygon,
             ''No code hits returned for '' @ qNameOf polygonGroup polygonQuery], None)"
proof -
  have le: "(1::int) \<le> 2" by simp
  have ctx: "ctxErr retryLostWorld (tick initState) = None"
    by (simp add: polygon_first_page)
  from retry_transport_failure_leaves_one_note [OF le ctx, of polygonQuery 50 polygonGroup 0,
      THEN conjunct1, rule_format, of resp422 "''connection reset by peer''"]
  have "codeLoop retryLostWorld 50 2 polygonGroup polygonQuery 1 0 initState
     = Inr (0, initState\<lparr>tick := 2,
          runNotes := [statusNote (qNameOf polygonGroup polygonQuery) resp422 lenientPolygon],
          throttled := [resp422]\<rparr>)"
    by (simp add: polygon_first_page polygon_urls initState_def numeral_2_eq_2)
  from this run_retryLostWorld show ?thesis ..
qed

section \<open>The pause of the Rate Governor\<close>

text \<open>
  C4, as the claim states it, fails in two places.  A positive \<^verbatim>\<open>Retry-After\<close> comes
  first: with no quota left and a reset thirty seconds ahead on the search resource, a
  \<^verbatim>\<open>Retry-After\<close> of five seconds makes the pause five and a half seconds, less than
  thirty.  And the pause is computed in 64-bit nanoseconds: a \<^verbatim>\<open>Retry-After\<close> of
  9223372037 seconds wraps around to a negative duration, and the call does not pause.
\<close>

theorem throttle_waits_counterexample:
  "fst (Atoi (Header limitedRetryAfter ''X-RateLimit-Remaining'')) = 0
   \<and> ToLower (Header limitedRetryAfter ''X-RateLimit-Resource'') = ''search''
   \<and> ParseInt (Header limitedRetryAfter ''X-RateLimit-Reset'') = (1704672030, True)
   \<and> Unix 1704672030 - noon = 30 * Second
   \<and> slept (throttleFrom noon limitedRetryAfter) = 5 * Second + 500 * Millisecond
   \<and> 5 * Second + 500 * Millisecond < 30 * Second
   \<and> Atoi (TrimSpace (Header retryAfterHuge ''Retry-After'')) = (9223372037, True)
   \<and> slept (throttleFrom noon retryAfterHuge) = 0"
  using throttle_limited(5) throttle_limitedRetryAfter throttle_retryAfterHuge
  by (simp only:)


text \<open>
  C4, amended.  A positive \<^verbatim>\<open>Retry-After\<close> of \<open>r\<close> seconds, \<open>r\<close> at most 9223372036,
  makes the pause \<open>r\<close> seconds and half a second, whatever the status and the other
  headers are.  Without a positive \<^verbatim>\<open>Retry-After\<close>, with a remaining quota of 0 and a
  reset thirty seconds ahead on the search resource, the pause is thirty seconds and
  half a second, which lies between 30 and 120 seconds.
\<close>

theorem throttle_waits:
  "(\<forall>r. Header resp ''Retry-After'' \<noteq> []
          \<and> Atoi (TrimSpace (Header resp ''Retry-After'')) = (r, True)
          \<and> 0 < r \<and> r \<le> 9223372036
        \<longrightarrow> slept (throttleFrom now resp) = r * Second + 500 * Millisecond
          \<and> r * Second \<le> slept (throttleFrom now resp))
   \<and> (\<forall>resetUnix.
          \<not> (Header resp ''Retry-After'' \<noteq> []
             \<and> snd (Atoi (TrimSpace (Header resp ''Retry-After'')))
             \<and> 0 < fst (Atoi (TrimSpace (Header resp ''Retry-After''))))
          \<and> fst (Atoi (Header resp ''X-RateLimit-Remaining'')) = 0
          \<and> ToLower (Header resp ''X-RateLimit-Resource'') = ''search''
          \<and> ParseInt (Header resp ''X-RateLimit-Reset'') = (resetUnix, True)
          \<and> Unix resetUnix - now = 30 * Second
        \<longrightarrow> slept (throttleFrom now resp) = 30 * Second + 500 * Millisecond
          \<and> 30 * Second \<le> slept (throttleFrom now resp)
          \<and> slept (throttleFrom now resp) \<le> 120 * Second)"
proof (intro conjI allI impI)
  fix r
  assume a: "Header resp ''Retry-After'' \<noteq> []
          \<and> Atoi (TrimSpace (Header resp ''Retry-After'')) = (r, True)
          \<and> 0 < r \<and> r \<le> 9223372036"
  then have 1: "wrap64 (r * Second) = r * Second"
    by (intro wrap64_id) (simp_all add: Second_def)
  from a have 2: "wrap64 (r * Second + 500 * Millisecond) = r * Second + 500 * Millisecond"
    by (intro wrap64_id) (simp_all add: Second_def Millisecond_def)
  from a have "throttleFrom now resp = wrap64 (wrap64 (r * Second) + 500 * Millisecond)"
    by (simp add: throttleFrom_def Let_def)
  with 1 2 have t: "throttleFrom now resp = r * Second + 500 * Millisecond"
    by simp
  from a show "slept (throttleFrom now resp) = r * Second + 500 * Millisecond"
    by (simp add: t slept_def Second_def Millisecond_def)
  from a show "r * Second \<le> slept (throttleFrom now resp)"
    by (simp add: t slept_def Second_def Millisecond_def)
next
  fix resetUnix
  assume a: "\<not> (Header resp ''Retry-After'' \<noteq> []
             \<and> snd (Atoi (TrimSpace (Header resp ''Retry-After'')))
             \<and> 0 < fst (Atoi (TrimSpace (Header resp ''Retry-After''))))
          \<and> fst (Atoi (Header resp ''X-RateLimit-Remaining'')) = 0
          \<and> ToLower (Header resp ''X-RateLimit-Resource'') = ''search''
          \<and> ParseInt (Header resp ''X-RateLimit-Reset'') = (resetUnix, True)
          \<and> Unix resetUnix - now = 30 * Second"
  then have u: "Until now (Unix resetUnix) = 30 * Second"
    by (simp add: Until_def Second_def maxInt64_def minInt64_def)
  from a have "throttleFrom now resp
      = (let wait = Until now (Unix resetUnix) in
         if wait > 0 then (if wait > 2 * Minute then 2 * Minute else wait) + 500 * Millisecond
         else 90 * Second)"
    by (auto simp: throttleFrom_def Let_def)
  with u have t: "throttleFrom now resp = 30 * Second + 500 * Millisecond"
    by (simp add: Let_def Second_def Minute_def)
  show "slept (throttleFrom now resp) = 30 * Second + 500 * Millisecond"
    by (simp add: t slept_def Second_def Millisecond_def)
  show "30 * Second \<le> slept (throttleFrom now resp)"
    by (simp add: t slept_def Second_def Millisecond_def)
  show "slept (throttleFrom now resp) \<le> 120 * Second"
    by (simp add: t slept_def Second_def Millisecond_def)
qed



theorem throttle_waits_witness:
  "slept (throttleFrom noon limitedRetryAfter) = 5 * Second + 500 * Millisecond
   \<and> 5 * Second \<le> slept (throttleFrom noon limitedRetryAfter)
   \<and> slept (throttleFrom noon limited) = 30 * Second + 500 * Millisecond
   \<and> 30 * Second \<le> slept (throttleFrom noon limited)
   \<and> slept (throttleFrom noon limited) \<le> 120 * Second"
proof -
  from throttle_waits [of limitedRetryAfter noon, THEN conjunct1, rule_format, of 5]
    throttle_limitedRetryAfter(1,2)
  have a: "slept (throttleFrom noon limitedRetryAfter) = 5 * Second + 500 * Millisecond
     \<and> 5 * Second \<le> slept (throttleFrom noon limitedRetryAfter)"
    by simp
  from throttle_waits [of limited noon, THEN conjunct2, rule_format, of 1704672030]
    throttle_limited
  have b: "slept (throttleFrom noon limited) = 30 * Second + 500 * Millisecond
     \<and> 30 * Second \<le> slept (throttleFrom noon limited)
     \<and> slept (throttleFrom noon limited) \<le> 120 * Second"
    by simp
  from a b show ?thesis
    by blast
qed


section \<open>The lenient encoding of a query\<close>

text \<open>
  C9.  For every query string, urlQueryEscape is the percent-encoding of the trimmed
  string, byte by byte, in which exactly the colon, the parentheses, the comparison
  signs, the equals sign, the comma, the slash and the pipe stand for themselves; the
  operator characters of the result are those of the string, in their order, and no
  byte is encoded a second time.  For every query string, sanitizeCodeQuery returns the
  fields of the query without its fork qualifiers, joined by single spaces; the
  parentheses, comparison signs, equals signs, commas, slashes and pipes of the query
  are those of the sanitized and encoded query, in their order, and the only colons
  that are missing are those of the fork qualifiers, one for each.  A query without a
  fork qualifier keeps all its fields and all its visible ASCII bytes through
  sanitizeCodeQuery, and all its operator characters through urlQueryEscape as well.
  A query with
  \<^verbatim>\<open>language:python\<close>, parentheses, \<^verbatim>\<open>>=\<close> and a comma is an instance, where
  the strict encoding of the retry replaces each of them.
\<close>

theorem lenient_encoding_restores_operators:
  "urlQueryEscape q = concat (map lenientByte (TrimSpace q))
   \<and> filter isOperator (urlQueryEscape q) = filter isOperator (TrimSpace q)
   \<and> filter isOperator (urlQueryEscape q) = filter isOperator q
   \<and> sanitizeCodeQuery q = Join (Fields (ReplaceAllFork False q)) '' ''
   \<and> Fields (sanitizeCodeQuery q) = Fields (ReplaceAllFork False q)
   \<and> urlQueryEscape (sanitizeCodeQuery q) = concat (map lenientByte (sanitizeCodeQuery q))
   \<and> filter (\<lambda>c. isOperator c \<and> c \<noteq> CHR '':'') (urlQueryEscape (sanitizeCodeQuery q))
       = filter (\<lambda>c. isOperator c \<and> c \<noteq> CHR '':'') q
   \<and> count_list (urlQueryEscape (sanitizeCodeQuery q)) (CHR '':'') + forkQualifiers False q
       = count_list q (CHR '':'')
   \<and> (forkQualifiers False q = 0 \<longrightarrow>
        Fields (sanitizeCodeQuery q) = Fields q
        \<and> filter isGraphic (sanitizeCodeQuery q) = filter isGraphic q
        \<and> filter isOperator (urlQueryEscape (sanitizeCodeQuery q)) = filter isOperator q)
   \<and> sanitizeCodeQuery ''  (polygon.io OR  alpaca) language:python  stars:>=5 topic:a,b ''
       = ''(polygon.io OR alpaca) language:python stars:>=5 topic:a,b''
   \<and> urlQueryEscape (sanitizeCodeQuery ''  (polygon.io OR  alpaca) language:python  stars:>=5 topic:a,b '')
       = ''(polygon.io+OR+alpaca)+language:python+stars:>=5+topic:a,b''
   \<and> QueryEscape (TrimSpace (sanitizeCodeQuery ''  (polygon.io OR  alpaca) language:python  stars:>=5 topic:a,b ''))
       = ''%28polygon.io+OR+alpaca%29+language%3Apython+stars%3A%3E%3D5+topic%3Aa%2Cb''"
proof -
  let ?op = "\<lambda>c. isOperator c \<and> c \<noteq> CHR '':''"
  let ?colon = "(=) (CHR '':'')"
  have enc: "urlQueryEscape s = concat (map lenientByte (TrimSpace s))" for s
    by (simp add: urlQueryEscape_tokens restoreAll_queryEscByte comp_def)
  have ops_trim: "filter isOperator (urlQueryEscape s) = filter isOperator (TrimSpace s)" for s
    by (simp add: enc filter_concat_lenientByte)
  have ops: "filter isOperator (urlQueryEscape s) = filter isOperator s" for s
    by (simp only: ops_trim filter_TrimSpace [of isOperator, OF operator_not_space])
  have join: "sanitizeCodeQuery q = Join (Fields (ReplaceAllFork False q)) '' ''"
    by (rule sanitizeCodeQuery_Join)
  have fields: "Fields (sanitizeCodeQuery q) = Fields (ReplaceAllFork False q)"
    by (rule Fields_sanitizeCodeQuery)
  have "TrimSpace (sanitizeCodeQuery q) = sanitizeCodeQuery q"
    by (simp add: sanitizeCodeQuery_def Let_def TrimSpace_idem)
  with enc [of "sanitizeCodeQuery q"]
  have once: "urlQueryEscape (sanitizeCodeQuery q) = concat (map lenientByte (sanitizeCodeQuery q))"
    by (simp only:)
  have white: "filter P (sanitizeCodeQuery q) = filter P (ReplaceAllFork False q)"
    if "\<And>c. P c \<Longrightarrow> \<not> spaceByte c" for P
    by (simp add: sanitizeCodeQuery_def Let_def filter_TrimSpace [of P, OF that]
        filter_Join_Fields [of P, OF that])
  have sub: "filter P (urlQueryEscape s) = filter P s" if "\<And>c. P c \<Longrightarrow> isOperator c" for P s
  proof -
    from that have "filter P xs = filter P (filter isOperator xs)" for xs
      by (induction xs) auto
    from this [of "urlQueryEscape s"] this [of s] ops [of s] show ?thesis
      by (simp only:)
  qed
  have "filter ?op (urlQueryEscape (sanitizeCodeQuery q)) = filter ?op (sanitizeCodeQuery q)"
    by (rule sub) simp
  also have "\<dots> = filter ?op (ReplaceAllFork False q)"
    by (rule white) (simp add: operator_not_space)
  also have "\<dots> = filter ?op q"
    by (rule filter_ReplaceAllFork) (simp add: operator_not_quiet)
  finally have others: "filter ?op (urlQueryEscape (sanitizeCodeQuery q)) = filter ?op q" .
  have colon_op: "isOperator (CHR '':'')"
    by (simp add: isOperator_def operatorChars_def)
  have "filter ?colon (urlQueryEscape (sanitizeCodeQuery q)) = filter ?colon (sanitizeCodeQuery q)"
    by (rule sub) (auto simp: colon_op)
  also have "\<dots> = filter ?colon (ReplaceAllFork False q)"
    by (rule white) (auto simp: operator_not_space colon_op)
  finally have "count_list (urlQueryEscape (sanitizeCodeQuery q)) (CHR '':'')
      = count_list (ReplaceAllFork False q) (CHR '':'')"
    by (simp only: count_list_eq_length_filter)
  with count_ReplaceAllFork [of False q]
  have colons: "count_list (urlQueryEscape (sanitizeCodeQuery q)) (CHR '':'') + forkQualifiers False q
       = count_list q (CHR '':'')"
    by (simp only:)
  have none: "Fields (sanitizeCodeQuery q) = Fields q
        \<and> filter isGraphic (sanitizeCodeQuery q) = filter isGraphic q
        \<and> filter isOperator (urlQueryEscape (sanitizeCodeQuery q)) = filter isOperator q"
    if "forkQualifiers False q = 0"
  proof -
    from ReplaceAllFork_id [OF that] have id: "ReplaceAllFork False q = q" .
    from fields id have "Fields (sanitizeCodeQuery q) = Fields q"
      by (simp only:)
    moreover from white [of isGraphic, OF graphic_not_space] id
    have "filter isGraphic (sanitizeCodeQuery q) = filter isGraphic q"
      by (simp only:)
    moreover from ops [of "sanitizeCodeQuery q"] white [of isOperator, OF operator_not_space] id
    have "filter isOperator (urlQueryEscape (sanitizeCodeQuery q)) = filter isOperator q"
      by (simp only:)
    ultimately show ?thesis
      by blast
  qed
  have c: "sanitizeCodeQuery ''  (polygon.io OR  alpaca) language:python  stars:>=5 topic:a,b ''
       = ''(polygon.io OR alpaca) language:python stars:>=5 topic:a,b''"
    by code_simp
  have d: "urlQueryEscape ''(polygon.io OR alpaca) language:python stars:>=5 topic:a,b''
       = ''(polygon.io+OR+alpaca)+language:python+stars:>=5+topic:a,b''"
    by code_simp
  have e: "QueryEscape (TrimSpace ''(polygon.io OR alpaca) language:python stars:>=5 topic:a,b'')
       = ''%28polygon.io+OR+alpaca%29+language%3Apython+stars%3A%3E%3D5+topic%3Aa%2Cb''"
    by code_simp
  from c d e have ex: "sanitizeCodeQuery ''  (polygon.io OR  alpaca) language:python  stars:>=5 topic:a,b ''
       = ''(polygon.io OR alpaca) language:python stars:>=5 topic:a,b''
   \<and> urlQueryEscape (sanitizeCodeQuery ''  (polygon.io OR  alpaca) language:python  stars:>=5 topic:a,b '')
       = ''(polygon.io+OR+alpaca)+language:python+stars:>=5+topic:a,b''
   \<and> QueryEscape (TrimSpace (sanitizeCodeQuery ''  (polygon.io OR  alpaca) language:python  stars:>=5 topic:a,b ''))
       = ''%28polygon.io+OR+alpaca%29+language%3Apython+stars%3A%3E%3D5+topic%3Aa%2Cb''"
    by (simp only:)
  from enc [of q] ops_trim [of q] ops [of q] join fields once others colons none ex
  show ?thesis
    by blast
qed

theorem lenient_encoding_restores_operators_witness:
  "forkQualifiers False operatorQuery = 0
   \<and> Fields (sanitizeCodeQuery operatorQuery)
       = [''(polygon.io'', ''OR'', ''alpaca)'', ''language:python'', ''stars:>=5'', ''topic:a,b'']
   \<and> filter isOperator (urlQueryEscape (sanitizeCodeQuery operatorQuery)) = ''()::>=:,''
   \<and> forkQualifiers False forkedQuery = 1
   \<and> sanitizeCodeQuery forkedQuery = ''language:go (a OR b)''
   \<and> urlQueryEscape (sanitizeCodeQuery forkedQuery) = ''language:go+(a+OR+b)''"
proof -
  from lenient_encoding_restores_operators [of operatorQuery] run_operatorQuery(1)
  have "Fields (sanitizeCodeQuery operatorQuery) = Fields operatorQuery
     \<and> filter isOperator (urlQueryEscape (sanitizeCodeQuery operatorQuery))
         = filter isOperator operatorQuery"
    by blast
  with run_operatorQuery run_forkedQuery show ?thesis
    by (simp only:)
qed

section \<open>The positions of the enrichment\<close>

text \<open>
  C8.  Whatever the schedule of the pool, when all jobs are handed over and answered
  the output slice has the length of the input, and its element at every position is
  the input hit of that position with the commit date that the job of that position
  produced: all other fields are those of the input.  It is the slice
  enrichWithCommitDates is defined to return.  With at least one worker, every schedule
  that has happened so far can be continued to such an end.
\<close>

theorem enrichment_keeps_positions:
  "(\<forall>evs p. poolRun E since hits W evs (poolInit hits) = Some p \<and> poolDone hits p \<longrightarrow>
       out p = enrichWithCommitDates E since hits
       \<and> length (out p) = length hits
       \<and> (\<forall>i < length hits.
            out p ! i = (hits ! i)\<lparr>CommitDate := workerResult E since i (hits ! i)\<rparr>
            \<and> Group (out p ! i) = Group (hits ! i) \<and> QueryName (out p ! i) = QueryName (hits ! i)
            \<and> Repository (out p ! i) = Repository (hits ! i) \<and> RepoURL (out p ! i) = RepoURL (hits ! i)
            \<and> FilePath (out p ! i) = FilePath (hits ! i) \<and> FileURL (out p ! i) = FileURL (hits ! i)
            \<and> Language (out p ! i) = Language (hits ! i)
            \<and> RepoPushed (out p ! i) = RepoPushed (hits ! i)))
   \<and> (\<forall>evs p. 0 < W \<and> poolRun E since hits W evs (poolInit hits) = Some p \<longrightarrow>
        (\<exists>evs' p'. poolRun E since hits W (evs @ evs') (poolInit hits) = Some p'
           \<and> poolDone hits p'))"
proof -
  have 1: "out p = enrichWithCommitDates E since hits
       \<and> length (out p) = length hits
       \<and> (\<forall>i < length hits.
            out p ! i = (hits ! i)\<lparr>CommitDate := workerResult E since i (hits ! i)\<rparr>
            \<and> Group (out p ! i) = Group (hits ! i) \<and> QueryName (out p ! i) = QueryName (hits ! i)
            \<and> Repository (out p ! i) = Repository (hits ! i) \<and> RepoURL (out p ! i) = RepoURL (hits ! i)
            \<and> FilePath (out p ! i) = FilePath (hits ! i) \<and> FileURL (out p ! i) = FileURL (hits ! i)
            \<and> Language (out p ! i) = Language (hits ! i)
            \<and> RepoPushed (out p ! i) = RepoPushed (hits ! i))"
    if a: "poolRun E since hits W evs (poolInit hits) = Some p" "poolDone hits p" for evs p
  proof -
    from poolInv_run [OF poolInv_init a(1)] have inv: "poolInv E since hits p" .
    from poolDone_out [OF inv a(2)] have o: "out p = enrichWithCommitDates E since hits" .
    then show ?thesis
      by (simp add: length_enrichWithCommitDates enrichWithCommitDates_nth)
  qed
  have 2: "\<exists>evs' p'. poolRun E since hits W (evs @ evs') (poolInit hits) = Some p'
           \<and> poolDone hits p'"
    if a: "0 < W" "poolRun E since hits W evs (poolInit hits) = Some p" for evs p
  proof -
    from poolInv_run [OF poolInv_init a(2)] have inv: "poolInv E since hits p" .
    from pool_completes [OF a(1) inv] obtain evs' p' where
      "poolRun E since hits W evs' p = Some p'" "poolDone hits p'"
      by blast
    with a(2) have "poolRun E since hits W (evs @ evs') (poolInit hits) = Some p' \<and> poolDone hits p'"
      by (simp add: poolRun_append)
    then show ?thesis by blast
  qed
  from 1 2 show ?thesis
    by blast
qed

theorem enrichment_keeps_positions_witness:
  "poolRun world (windowStart world settings) threeHits 2 outOfOrder (poolInit threeHits)
     = Some threeEnriched
   \<and> poolDone threeHits threeEnriched
   \<and> out threeEnriched = enrichWithCommitDates world (windowStart world settings) threeHits
   \<and> length (out threeEnriched) = length threeHits
   \<and> (\<exists>evs' p'.
         poolRun world (windowStart world settings) threeHits 2 ([Take, Take] @ evs')
           (poolInit threeHits) = Some p'
         \<and> poolDone threeHits p')"
proof -
  from enrichment_keeps_positions [of world "windowStart world settings" threeHits 2,
      THEN conjunct1, rule_format, of outOfOrder threeEnriched] run_outOfOrder(1,2)
  have a: "out threeEnriched = enrichWithCommitDates world (windowStart world settings) threeHits
     \<and> length (out threeEnriched) = length threeHits"
    by blast
  from enrichment_keeps_positions [of world "windowStart world settings" threeHits 2,
      THEN conjunct2, rule_format, of "[Take, Take]" "\<lparr>nextJob = 2, busy = [0, 1], out = threeHits\<rparr>"]
    run_outOfOrder(3)
  have b: "\<exists>evs' p'.
         poolRun world (windowStart world settings) threeHits 2 ([Take, Take] @ evs')
           (poolInit threeHits) = Some p'
         \<and> poolDone threeHits p'"
    by simp
  from a b run_outOfOrder(1,2) show ?thesis
    by blast
qed

end
